theory Spec2Isabelle
  imports Main "HOL-Library.Sublist" "HOL-Library.AList"
begin

section \<open>OID values (snmpmagic/oid.go)\<close>

text \<open>
  An OID is a Go slice of \<open>uint\<close>. Arcs are only stored and compared, never computed
  with, so they are natural numbers here; on the 64-bit platforms the program is built for
  \<open>uint\<close> has 64 bits and the only place where an arc is created from text,
  \<open>strconv.ParseUint(part, 10, 64)\<close>, bounds it by \<open>2 ^ 64 - 1\<close>.
\<close>

type_synonym OID = "nat list"

datatype NumError = ErrSyntax | ErrRange

text \<open>\<open>strings.Split(str, ".")\<close>: the pieces between the dots; never an empty list.\<close>

fun strings_Split :: "string \<Rightarrow> string list" where
  "strings_Split [] = [[]]"
| "strings_Split (c # cs) =
     (if c = CHR ''.'' then [] # strings_Split cs
      else (case strings_Split cs of
              [] \<Rightarrow> [[c]]
            | p # ps \<Rightarrow> (c # p) # ps))"

definition digit_val :: "char \<Rightarrow> nat option" where
  "digit_val c = map_of
     [(CHR ''0'', 0), (CHR ''1'', 1), (CHR ''2'', 2), (CHR ''3'', 3), (CHR ''4'', 4),
      (CHR ''5'', 5), (CHR ''6'', 6), (CHR ''7'', 7), (CHR ''8'', 8), (CHR ''9'', 9)] c"

definition digit_char :: "nat \<Rightarrow> char" where
  "digit_char d = ''0123456789'' ! d"

definition maxUint64 :: nat where
  "maxUint64 = 18446744073709551615"

text \<open>
  The digit loop of \<open>strconv.ParseUint\<close> for base 10 and bit size 64: a byte that is
  not a decimal digit is a syntax error (no sign, no underscore), and a value that does not
  fit in 64 bits is a range error.
\<close>

fun ParseUint_loop :: "nat \<Rightarrow> string \<Rightarrow> NumError + nat" where
  "ParseUint_loop n [] = Inr n"
| "ParseUint_loop n (c # cs) =
     (case digit_val c of
        None \<Rightarrow> Inl ErrSyntax
      | Some d \<Rightarrow>
          if n \<ge> maxUint64 div 10 + 1 then Inl ErrRange
          else (let n1 = n * 10 + d in
                if n1 > maxUint64 then Inl ErrRange else ParseUint_loop n1 cs))"

definition ParseUint :: "string \<Rightarrow> NumError + nat" where
  "ParseUint s = (if s = [] then Inl ErrSyntax else ParseUint_loop 0 s)"

text \<open>The loop \<open>for i, part := range parts\<close> of \<open>ParseOID\<close>: the first bad part is the error.\<close>

fun ParseOID_parts :: "string list \<Rightarrow> NumError + OID" where
  "ParseOID_parts [] = Inr []"
| "ParseOID_parts (part # parts) =
     (case ParseUint part of
        Inl err \<Rightarrow> Inl err
      | Inr partUint \<Rightarrow>
          (case ParseOID_parts parts of
             Inl err \<Rightarrow> Inl err
           | Inr oid \<Rightarrow> Inr (partUint # oid)))"

definition ParseOID :: "string \<Rightarrow> NumError + OID" where
  "ParseOID str = ParseOID_parts (dropWhile (\<lambda>part. part = []) (strings_Split str))"

text \<open>\<open>fmt.Fprint\<close> of a \<open>uint\<close>: its decimal digits.\<close>

function FormatUint :: "nat \<Rightarrow> string" where
  "FormatUint n = (if n < 10 then [digit_char n] else FormatUint (n div 10) @ [digit_char (n mod 10)])"
  by pat_completeness auto
termination
  by (relation "measure (\<lambda>n. n)") auto

declare FormatUint.simps [simp del]

fun String_OID :: "OID \<Rightarrow> string" where
  "String_OID [] = []"
| "String_OID [a] = FormatUint a"
| "String_OID (a # b # r) = FormatUint a @ CHR ''.'' # String_OID (b # r)"

definition Copy :: "OID \<Rightarrow> OID" where
  "Copy oid = oid"

text \<open>
  \<open>LongestCommonPrefixLength\<close>: the loop counts up while the arcs agree and both
  slices have an arc left.
\<close>

fun LongestCommonPrefixLength :: "OID \<Rightarrow> OID \<Rightarrow> nat" where
  "LongestCommonPrefixLength (a # as) (b # bs) =
     (if a \<noteq> b then 0 else 1 + LongestCommonPrefixLength as bs)"
| "LongestCommonPrefixLength _ _ = 0"

text \<open>
  The canonical text of the specification, written from its words and not from the code:
  leading dots are stripped, and each arc is an unsigned decimal numeral (no leading
  zeros), the arcs joined by single dots.
\<close>

definition spec_canonical_arc :: "string \<Rightarrow> string" where
  "spec_canonical_arc a =
     (let z = dropWhile (\<lambda>c. c = CHR ''0'') a in if z = [] then ''0'' else z)"

fun spec_join_dots :: "string list \<Rightarrow> string" where
  "spec_join_dots [] = []"
| "spec_join_dots [a] = a"
| "spec_join_dots (a # b # r) = a @ CHR ''.'' # spec_join_dots (b # r)"

definition spec_canonical_form :: "string \<Rightarrow> string" where
  "spec_canonical_form s =
     (let body = dropWhile (\<lambda>c. c = CHR ''.'') s in
      if body = [] then []
      else spec_join_dots (map spec_canonical_arc (strings_Split body)))"

section \<open>The OID prefix tree\<close>

datatype OIDNodeType = UninitializedNode | SimpleNode | SuffixCatcherNode | LeafNode

text \<open>
  The struct \<open>OIDTree\<close>. Its \<open>children\<close> map is an association list, read with
  \<open>map_of\<close> and written with \<open>AList.update\<close>, which replaces the value of a key that
  is present and appends a key that is not; the field \<open>isInitialized\<close> is never read or
  written by the program and is left out. The field \<open>prefix\<close> is called \<open>prefixOID\<close>
  here. Nodes are reached through one owner only, so the in-place updates of the program
  are functions that return the updated node.
\<close>

datatype OIDTree = OIDTree
  (prefixOID: OID)
  (children: "(nat \<times> OIDTree) list")
  (fieldIndex: int)
  (fieldQualifiedName: string)
  (nodeType: OIDNodeType)

text \<open>What stops the process: the program's own \<open>panic\<close> calls and those of the Go runtime.\<close>

datatype Panic =
    InsertUnderLeaf
  | IndexOutOfRange
  | CannotConvertToBool
  | ExpectedBytes
  | TypeAssertion
  | ReflectPanic

definition NewOIDTree :: OIDTree where
  "NewOIDTree = OIDTree [] [] (- 1) [] UninitializedNode"

definition IsLeaf :: "OIDTree \<Rightarrow> bool" where
  "IsLeaf self = (nodeType self = LeafNode)"

definition IsSuffixCatching :: "OIDTree \<Rightarrow> bool" where
  "IsSuffixCatching self = (nodeType self = SuffixCatcherNode)"

definition set_children :: "OIDTree \<Rightarrow> (nat \<times> OIDTree) list \<Rightarrow> OIDTree" where
  "set_children self cs =
     OIDTree (prefixOID self) cs (fieldIndex self) (fieldQualifiedName self) (nodeType self)"

text \<open>
  \<open>Insert\<close> and \<open>createOrUpdateChild\<close> call each other. \<open>commonLen\<close> is a Go \<open>int\<close>
  and is decremented, so it is an integer here, and the index expression
  \<open>self.prefix[commonLen]\<close> panics when it is out of range, as does \<open>path[0]\<close>.
\<close>

function Insert :: "OIDTree \<Rightarrow> OID \<Rightarrow> int \<Rightarrow> string \<Rightarrow> OIDNodeType \<Rightarrow> Panic + OIDTree"
  and createOrUpdateChild :: "OIDTree \<Rightarrow> OID \<Rightarrow> int \<Rightarrow> string \<Rightarrow> OIDNodeType \<Rightarrow> Panic + OIDTree"
where
  "Insert self path fi fqn nt =
     (if nodeType self = UninitializedNode
      then Inr (OIDTree (Copy path) (children self) fi fqn nt)
      else
        (let commonLen = int (LongestCommonPrefixLength (prefixOID self) path) in
         if commonLen = int (length (prefixOID self)) \<and> commonLen < int (length path)
         then createOrUpdateChild self (drop (nat commonLen) path) fi fqn nt
         else
           (let commonLen = (if commonLen = int (length path) then commonLen - 1 else commonLen) in
            if commonLen < 0 \<or> int (length (prefixOID self)) \<le> commonLen
            then Inl IndexOutOfRange
            else
              (let moved = OIDTree (drop (nat commonLen + 1) (prefixOID self)) (children self)
                             (fieldIndex self) (fieldQualifiedName self) (nodeType self);
                   self' = OIDTree (take (nat commonLen) (prefixOID self))
                             [(prefixOID self ! nat commonLen, moved)] (- 1) [] SimpleNode
               in createOrUpdateChild self' (drop (nat commonLen) path) fi fqn nt))))"
| "createOrUpdateChild self path fi fqn nt =
     (case path of
        [] \<Rightarrow> Inl IndexOutOfRange
      | key # childPath \<Rightarrow>
          (case map_of (children self) key of
             Some child \<Rightarrow>
               (case Insert child childPath fi fqn nt of
                  Inl p \<Rightarrow> Inl p
                | Inr child' \<Rightarrow> Inr (set_children self (AList.update key child' (children self))))
           | None \<Rightarrow>
               if IsLeaf self then Inl InsertUnderLeaf
               else Inr (set_children self
                           (AList.update key (OIDTree (Copy childPath) [] fi fqn nt)
                              (children self)))))"
  by pat_completeness auto
termination
  by (relation "measure (\<lambda>x. case x of
                   Inl (self, path, fi, fqn, nt) \<Rightarrow> 2 * length path + 1
                 | Inr (self, path, fi, fqn, nt) \<Rightarrow> 2 * length path)") auto

declare Insert.simps [simp del] createOrUpdateChild.simps [simp del]

definition FindNext :: "OIDTree \<Rightarrow> OID \<Rightarrow> OIDTree option \<times> OID" where
  "FindNext self path =
     (let prefixLen = LongestCommonPrefixLength (prefixOID self) path in
      if prefixLen \<noteq> length (prefixOID self) then (None, path)
      else
        (let remainingPath = drop prefixLen path in
         case remainingPath of
           [] \<Rightarrow> (Some self, [])
         | key # rest \<Rightarrow>
             (case map_of (children self) key of
                Some child \<Rightarrow> (Some child, rest)
              | None \<Rightarrow> (None, path))))"

text \<open>
  \<open>PrefixPaths\<close>. Go ranges over a map in no fixed order; the list below follows the order
  of the association list, and only the set of returned paths is meaningful.
\<close>

fun PrefixPaths :: "OIDTree \<Rightarrow> OID list" where
  "PrefixPaths (OIDTree pre cs fi fqn nt) =
     (if nt = LeafNode then []
      else if nt = SuffixCatcherNode then [Copy pre]
      else concat (map (\<lambda>(key, child).
                          map (\<lambda>path. Copy pre @ [key] @ path) (PrefixPaths child)) cs))"

text \<open>A schema entry: path, locator (field index and qualified field name) and kind.\<close>

type_synonym entry = "OID \<times> int \<times> string \<times> OIDNodeType"

fun InsertAll :: "OIDTree \<Rightarrow> entry list \<Rightarrow> Panic + OIDTree" where
  "InsertAll t [] = Inr t"
| "InsertAll t ((path, fi, fqn, nt) # es) =
     (case Insert t path fi fqn nt of
        Inl p \<Rightarrow> Inl p
      | Inr t' \<Rightarrow> InsertAll t' es)"

text \<open>
  Walking a path through \<open>FindNext\<close>: the walk goes on from the node \<open>FindNext\<close> returns
  with what remains of the path, stops without a node when \<open>FindNext\<close> returns none, and
  has arrived when \<open>FindNext\<close> returns the node it was called on. The result is the last
  answer of \<open>FindNext\<close>: the node, if any, and the remainder.
\<close>

function walk :: "OIDTree \<Rightarrow> OID \<Rightarrow> OIDTree option \<times> OID" where
  "walk node path =
     (case FindNext node path of
        (None, remainder) \<Rightarrow> (None, remainder)
      | (Some next, remainder) \<Rightarrow>
          if next = node then (Some node, remainder) else walk next remainder)"
  by pat_completeness auto
termination
  apply (relation "measure (\<lambda>(node, path). length path)")
   apply simp
  apply (clarsimp simp: FindNext_def Let_def split: if_splits list.splits option.splits)
  apply (drule arg_cong [where f = length])
  apply simp
  done

declare walk.simps [simp del]

definition lookup :: "OIDTree \<Rightarrow> OID \<Rightarrow> OIDTree option" where
  "lookup t path = fst (walk t path)"

definition locator_kind :: "OIDTree \<Rightarrow> int \<times> string \<times> OIDNodeType" where
  "locator_kind n = (fieldIndex n, fieldQualifiedName n, nodeType n)"

text \<open>Every node of the tree has a kind; only a fresh root has none.\<close>

fun init_tree :: "OIDTree \<Rightarrow> bool" where
  "init_tree (OIDTree pre cs fi fqn nt) =
     (nt \<noteq> UninitializedNode \<and> (\<forall>(key, child) \<in> set cs. init_tree child))"

text \<open>
  The orders of insertion the tree accepts. An entry can be inserted after the entries
  \<open>ds\<close> when its path is not a prefix of (or equal to) the path of any of them and
  does not extend the path of a leaf among them.
\<close>

definition insertable :: "entry list \<Rightarrow> entry \<Rightarrow> bool" where
  "insertable ds e =
     (case e of (p, fi, fqn, nt) \<Rightarrow>
        nt \<noteq> UninitializedNode \<and>
        (\<forall>(q, fi', fqn', nt') \<in> set ds.
           \<not> prefix p q \<and> (nt' = LeafNode \<longrightarrow> \<not> prefix q p)))"

fun insertion_order :: "entry list \<Rightarrow> entry list \<Rightarrow> bool" where
  "insertion_order ds [] = True"
| "insertion_order ds (e # es) = (insertable ds e \<and> insertion_order (ds @ [e]) es)"

text \<open>
  What a tree built from the entries \<open>ds\<close> looks like: it is the fresh root when there are
  none; otherwise every node has a kind, every entry is found at its path with its locator
  and kind, and every node that is found is an entry or a node made by a split (no
  locator, kind simple) on the way to an entry.
\<close>

definition tree_of_entries :: "OIDTree \<Rightarrow> entry list \<Rightarrow> bool" where
  "tree_of_entries t ds =
     (if ds = [] then t = NewOIDTree
      else init_tree t
        \<and> (\<forall>(p, fi, fqn, nt) \<in> set ds.
              \<exists>n. lookup t p = Some n \<and> locator_kind n = (fi, fqn, nt))
        \<and> (\<forall>A n. lookup t A = Some n \<longrightarrow>
              (\<exists>(p, fi, fqn, nt) \<in> set ds.
                 (A = p \<and> locator_kind n = (fi, fqn, nt))
                 \<or> (locator_kind n = (- 1, [], SimpleNode) \<and> prefix A p))))"

text \<open>A Go map has each key once: the association lists of a tree have distinct keys.\<close>

fun distinct_keys :: "OIDTree \<Rightarrow> bool" where
  "distinct_keys (OIDTree pre cs fi fqn nt) =
     (distinct (map fst cs) \<and> (\<forall>(key, child) \<in> set cs. distinct_keys child))"

text \<open>In an accepted order no entry lies strictly below a leaf entry.\<close>

definition leaves_last :: "entry list \<Rightarrow> bool" where
  "leaves_last xs \<longleftrightarrow>
     (\<forall>q a b q' a' b' c'. (q, a, b, LeafNode) \<in> set xs \<and> (q', a', b', c') \<in> set xs \<longrightarrow> \<not> strict_prefix q q')"

text \<open>Invariant I2 of the tree: a leaf has no children (nor has a root without a kind).\<close>

fun childless_leaves :: "OIDTree \<Rightarrow> bool" where
  "childless_leaves (OIDTree pre cs fi fqn nt) =
     ((nt = LeafNode \<or> nt = UninitializedNode \<longrightarrow> cs = [])
      \<and> (\<forall>(key, child) \<in> set cs. childless_leaves child))"


section \<open>Record types and the schema introspector\<close>

text \<open>
  What the program reads of a \<open>reflect.Type\<close>: its kind, its element type, its name and,
  for a struct, its fields with their \<open>snmp\<close> tags (the empty text when a field has
  none). \<open>TOID\<close> is the named type \<open>snmpmagic.OID\<close>, the one slice type the program
  compares types with.
\<close>

datatype Kind =
    KInvalid | KBool | KInt | KInt8 | KInt16 | KInt32 | KInt64
  | KUint | KUint8 | KUint16 | KUint32 | KUint64 | KFloat32 | KFloat64
  | KString | KSlice | KStruct | KMap | KPtr

datatype GoType =
    TBool | TInt | TInt8 | TInt16 | TInt32 | TInt64
  | TUint | TUint8 | TUint16 | TUint32 | TUint64 | TFloat32 | TFloat64
  | TString
  | TSlice GoType
  | TOID
  | TPtr GoType
  | TMap GoType GoType
  | TStruct string "(string \<times> string \<times> GoType) list"

fun kind_of :: "GoType \<Rightarrow> Kind" where
  "kind_of TBool = KBool"
| "kind_of TInt = KInt"
| "kind_of TInt8 = KInt8"
| "kind_of TInt16 = KInt16"
| "kind_of TInt32 = KInt32"
| "kind_of TInt64 = KInt64"
| "kind_of TUint = KUint"
| "kind_of TUint8 = KUint8"
| "kind_of TUint16 = KUint16"
| "kind_of TUint32 = KUint32"
| "kind_of TUint64 = KUint64"
| "kind_of TFloat32 = KFloat32"
| "kind_of TFloat64 = KFloat64"
| "kind_of TString = KString"
| "kind_of (TSlice t) = KSlice"
| "kind_of TOID = KSlice"
| "kind_of (TPtr t) = KPtr"
| "kind_of (TMap k v) = KMap"
| "kind_of (TStruct name fields) = KStruct"

text \<open>\<open>Type.Name()\<close>: the name of a defined type, empty for an unnamed one.\<close>

fun type_Name :: "GoType \<Rightarrow> string" where
  "type_Name TBool = ''bool''"
| "type_Name TInt = ''int''"
| "type_Name TInt8 = ''int8''"
| "type_Name TInt16 = ''int16''"
| "type_Name TInt32 = ''int32''"
| "type_Name TInt64 = ''int64''"
| "type_Name TUint = ''uint''"
| "type_Name TUint8 = ''uint8''"
| "type_Name TUint16 = ''uint16''"
| "type_Name TUint32 = ''uint32''"
| "type_Name TUint64 = ''uint64''"
| "type_Name TFloat32 = ''float32''"
| "type_Name TFloat64 = ''float64''"
| "type_Name TString = ''string''"
| "type_Name (TSlice t) = []"
| "type_Name TOID = ''OID''"
| "type_Name (TPtr t) = []"
| "type_Name (TMap k v) = []"
| "type_Name (TStruct name fields) = name"

text \<open>\<open>strings.IndexFunc(field.Name, unicode.IsLower) == 0\<close>, for names in ASCII.\<close>

definition starts_lower :: "string \<Rightarrow> bool" where
  "starts_lower name =
     (case name of [] \<Rightarrow> False | c # cs \<Rightarrow> c \<in> set ''abcdefghijklmnopqrstuvwxyz'')"

text \<open>
  \<open>prepare\<close> returns the tree as it has become, together with the error it returns, or
  panics. The loop over the fields is \<open>prepare_fields\<close>; the switch on the kind of the
  field's type is the case distinction on the type. The results of the recursive calls
  are dropped where the program drops them. \<open>NumField\<close> panics on a type that is not a
  struct.
\<close>

fun prepare :: "OIDTree \<Rightarrow> GoType \<Rightarrow> OID \<Rightarrow> string \<Rightarrow> Panic + (OIDTree \<times> NumError option)"
  and prepare_fields :: "OIDTree \<Rightarrow> (string \<times> string \<times> GoType) list \<Rightarrow> int \<Rightarrow> OID \<Rightarrow> string
                           \<Rightarrow> Panic + (OIDTree \<times> NumError option)"
where
  "prepare self (TPtr elem) pfx parentName =
     (case prepare self elem pfx (type_Name elem) of
        Inl p \<Rightarrow> Inl p
      | Inr (self', err) \<Rightarrow> Inr (self', None))"
| "prepare self (TStruct name fields) pfx parentName =
     prepare_fields self fields 0 pfx parentName"
| "prepare self t pfx parentName = Inl ReflectPanic"
| "prepare_fields self [] fieldIdx pfx parentName = Inr (self, None)"
| "prepare_fields self ((fieldName, snmpTag, fieldType) # rest) fieldIdx pfx parentName =
     (if snmpTag = [] then Inr (self, None)
      else if starts_lower fieldName
      then prepare_fields self rest (fieldIdx + 1) pfx parentName
      else
        (case ParseOID snmpTag of
           Inl err \<Rightarrow> Inr (self, Some err)
         | Inr snmpTagOid \<Rightarrow>
             (let path = Copy pfx @ snmpTagOid;
                  fqn = parentName @ ''.'' @ fieldName
              in case fieldType of
                   TStruct name fields \<Rightarrow>
                     (case Insert self path fieldIdx fqn SimpleNode of
                        Inl p \<Rightarrow> Inl p
                      | Inr self1 \<Rightarrow>
                          (case prepare self1 fieldType path (type_Name fieldType) of
                             Inl p \<Rightarrow> Inl p
                           | Inr (self2, err) \<Rightarrow>
                               prepare_fields self2 rest (fieldIdx + 1) pfx parentName))
                 | TMap keyType elemType \<Rightarrow>
                     (case Insert self path fieldIdx fqn SuffixCatcherNode of
                        Inl p \<Rightarrow> Inl p
                      | Inr self1 \<Rightarrow>
                          (case prepare self1 elemType path (type_Name elemType) of
                             Inl p \<Rightarrow> Inl p
                           | Inr (self2, err) \<Rightarrow>
                               prepare_fields self2 rest (fieldIdx + 1) pfx parentName))
                 | _ \<Rightarrow>
                     (case Insert self path fieldIdx fqn LeafNode of
                        Inl p \<Rightarrow> Inl p
                      | Inr self1 \<Rightarrow>
                          prepare_fields self1 rest (fieldIdx + 1) pfx parentName))))"

text \<open>
  \<open>BuildOIDTree\<close> with the cache \<open>oidTreeCacheByType\<close> as explicit state: a map from
  types to trees, returned as the call leaves it.
\<close>

type_synonym TreeCache = "GoType \<Rightarrow> OIDTree option"

definition BuildOIDTree :: "TreeCache \<Rightarrow> GoType \<Rightarrow> (Panic + NumError + OIDTree) \<times> TreeCache" where
  "BuildOIDTree cache t =
     (case cache t of
        Some cachedOidTree \<Rightarrow> (Inr (Inr cachedOidTree), cache)
      | None \<Rightarrow>
          (case prepare NewOIDTree t [] [] of
             Inl p \<Rightarrow> (Inl p, cache)
           | Inr (oidTree, Some err) \<Rightarrow> (Inr (Inl err), cache)
           | Inr (oidTree, None) \<Rightarrow> (Inr (Inr oidTree), cache(t \<mapsto> oidTree))))"


section \<open>Records, PDUs and value coercion\<close>

text \<open>
  The caller's record is a tree of values. Pointers own what they point to (each map row is
  made by \<open>reflect.New\<close>), \<open>None\<close> is the nil pointer and the nil map, and a \<open>[]byte\<close>
  is a list of bytes, that is, of characters.
\<close>

datatype MapKey = KeyUint nat | KeyString string

datatype GoValue =
    VBool bool
  | VInt int
  | VUint nat
  | VFloat
  | VString string
  | VBytes string
  | VOID OID
  | VSlice "GoValue list"
  | VPtr "GoValue option"
  | VMap "(MapKey \<times> GoValue) list option"
  | VStruct "GoValue list"

fun zero_value :: "GoType \<Rightarrow> GoValue" where
  "zero_value TBool = VBool False"
| "zero_value TInt = VInt 0"
| "zero_value TInt8 = VInt 0"
| "zero_value TInt16 = VInt 0"
| "zero_value TInt32 = VInt 0"
| "zero_value TInt64 = VInt 0"
| "zero_value TUint = VUint 0"
| "zero_value TUint8 = VUint 0"
| "zero_value TUint16 = VUint 0"
| "zero_value TUint32 = VUint 0"
| "zero_value TUint64 = VUint 0"
| "zero_value TFloat32 = VFloat"
| "zero_value TFloat64 = VFloat"
| "zero_value TString = VString []"
| "zero_value (TSlice TUint8) = VBytes []"
| "zero_value (TSlice t) = VSlice []"
| "zero_value TOID = VOID []"
| "zero_value (TPtr t) = VPtr None"
| "zero_value (TMap k v) = VMap None"
| "zero_value (TStruct name fields) = VStruct (map (\<lambda>(fieldName, snmpTag, t). zero_value t) fields)"

text \<open>
  A \<open>reflect.Value\<close> is the zero Value or a typed place inside the record: the steps
  that lead to it from the value handed to \<open>NewSNMPMagic\<close>, and whether it can be set.
\<close>

datatype Step = Deref | FieldAt nat | MapElem MapKey

datatype Value = ZeroValue | RValue GoType "Step list" bool

fun get_at :: "GoValue \<Rightarrow> Step list \<Rightarrow> GoValue option" where
  "get_at v [] = Some v"
| "get_at (VPtr (Some v)) (Deref # ss) = get_at v ss"
| "get_at (VStruct fs) (FieldAt i # ss) = (if i < length fs then get_at (fs ! i) ss else None)"
| "get_at (VMap (Some m)) (MapElem k # ss) =
     (case map_of m k of Some v \<Rightarrow> get_at v ss | None \<Rightarrow> None)"
| "get_at v (s # ss) = None"

fun set_at :: "GoValue \<Rightarrow> Step list \<Rightarrow> GoValue \<Rightarrow> GoValue option" where
  "set_at v [] nv = Some nv"
| "set_at (VPtr (Some v)) (Deref # ss) nv =
     map_option (\<lambda>v'. VPtr (Some v')) (set_at v ss nv)"
| "set_at (VStruct fs) (FieldAt i # ss) nv =
     (if i < length fs
      then map_option (\<lambda>v'. VStruct (fs[i := v'])) (set_at (fs ! i) ss nv)
      else None)"
| "set_at (VMap (Some m)) (MapElem k # ss) nv =
     (case map_of m k of
        Some v \<Rightarrow> map_option (\<lambda>v'. VMap (Some (AList.update k v' m))) (set_at v ss nv)
      | None \<Rightarrow> None)"
| "set_at v (s # ss) nv = None"

definition Kind_of_Value :: "Value \<Rightarrow> Kind" where
  "Kind_of_Value value = (case value of ZeroValue \<Rightarrow> KInvalid | RValue t loc canSet \<Rightarrow> kind_of t)"

definition Type_of_Value :: "Value \<Rightarrow> GoType option" where
  "Type_of_Value value = (case value of ZeroValue \<Rightarrow> None | RValue t loc canSet \<Rightarrow> Some t)"

definition IsValid :: "Value \<Rightarrow> bool" where
  "IsValid value = (value \<noteq> ZeroValue)"

text \<open>\<open>Type.Elem()\<close>; it panics on a type that has no element type.\<close>

fun type_Elem :: "GoType \<Rightarrow> GoType option" where
  "type_Elem (TSlice t) = Some t"
| "type_Elem TOID = Some TUint"
| "type_Elem (TPtr t) = Some t"
| "type_Elem (TMap k v) = Some v"
| "type_Elem t = None"

text \<open>
  The setters of \<open>reflect.Value\<close> panic on a Value that cannot be set. \<open>SetInt\<close> and
  \<open>SetUint\<close> store the 64-bit argument cut to the width of the kind.
\<close>

definition SetValue :: "GoValue \<Rightarrow> Value \<Rightarrow> GoValue \<Rightarrow> Panic + GoValue" where
  "SetValue dest value nv =
     (case value of
        ZeroValue \<Rightarrow> Inl ReflectPanic
      | RValue t loc canSet \<Rightarrow>
          if \<not> canSet then Inl ReflectPanic
          else (case set_at dest loc nv of None \<Rightarrow> Inl ReflectPanic | Some dest' \<Rightarrow> Inr dest'))"

fun kind_bits :: "Kind \<Rightarrow> nat" where
  "kind_bits KInt8 = 8"
| "kind_bits KUint8 = 8"
| "kind_bits KInt16 = 16"
| "kind_bits KUint16 = 16"
| "kind_bits KInt32 = 32"
| "kind_bits KUint32 = 32"
| "kind_bits k = 64"

definition SetInt :: "GoValue \<Rightarrow> Value \<Rightarrow> int \<Rightarrow> Panic + GoValue" where
  "SetInt dest value x =
     SetValue dest value (VInt (signed_take_bit (kind_bits (Kind_of_Value value) - 1) x))"

definition SetUint :: "GoValue \<Rightarrow> Value \<Rightarrow> nat \<Rightarrow> Panic + GoValue" where
  "SetUint dest value x =
     SetValue dest value (VUint (take_bit (kind_bits (Kind_of_Value value)) x))"

text \<open>
  A PDU of the transport: name, tag and payload. The payload is an \<open>interface{}\<close>; the
  program asserts its dynamic type, and a failed assertion panics.
\<close>

datatype Asn1BER =
    Integer | Counter32 | Counter64 | Gauge32 | TimeTicks | Uinteger32
  | OctetString | ObjectIdentifier | OtherTag

datatype PduValue =
    Int64Val int | IntVal int | Uint64Val nat | UintVal nat
  | BytesVal string | StringVal string | OtherVal

record SnmpPDU =
  Name :: string
  Type :: Asn1BER
  Value :: PduValue

text \<open>The errors the walker returns or logs.\<close>

datatype GoError =
    ErrAlreadyFilled
  | ErrParseOID NumError
  | ErrInvalidField string
  | ErrNotAMap
  | ErrMapElemNotPointer
  | ErrCannotSet string
  | ErrNoPathElements
  | ErrMapKeyKind
  | ErrTransport string

datatype LogEntry =
    LogTypeMismatch string Kind string
  | LogUnhandled string string Asn1BER
  | LogError GoError string OID

definition done_quietly :: "Panic + GoValue \<Rightarrow> Panic + (GoValue \<times> LogEntry list)" where
  "done_quietly r = (case r of Inl p \<Rightarrow> Inl p | Inr dest' \<Rightarrow> Inr (dest', []))"

text \<open>
  \<open>deserializePDUToValue\<close>: the record as it is left and what was logged, or a panic.
  \<open>expectedFieldType\<close> is set in the default branches and logged at the end.
\<close>

definition deserializePDUToValue ::
  "SnmpPDU \<Rightarrow> GoValue \<Rightarrow> Value \<Rightarrow> string \<Rightarrow> Panic + (GoValue \<times> LogEntry list)" where
  "deserializePDUToValue pdu dest value fieldName =
     (let expected = (\<lambda>expectedFieldType.
            Inr (dest, [LogTypeMismatch fieldName (Kind_of_Value value) expectedFieldType]))
      in
      if Type pdu = Integer then
        (case (case Value pdu of Int64Val i \<Rightarrow> Inr i | IntVal i \<Rightarrow> Inr i | _ \<Rightarrow> Inl TypeAssertion) of
           Inl p \<Rightarrow> Inl p
         | Inr intVal \<Rightarrow>
             if Kind_of_Value value = KBool then
               (if intVal = 1 then done_quietly (SetValue dest value (VBool True))
                else if intVal = 2 then done_quietly (SetValue dest value (VBool False))
                else Inl CannotConvertToBool)
             else if Kind_of_Value value \<in> {KInt, KInt32, KInt64}
             then done_quietly (SetInt dest value intVal)
             else expected ''{int, int32, int64}'')
      else if Type pdu \<in> {Counter32, Counter64, Gauge32, TimeTicks, Uinteger32} then
        (case (case Value pdu of Uint64Val u \<Rightarrow> Inr u | UintVal u \<Rightarrow> Inr u | _ \<Rightarrow> Inl TypeAssertion) of
           Inl p \<Rightarrow> Inl p
         | Inr uintVal \<Rightarrow>
             if Kind_of_Value value = KBool then
               (if uintVal = 1 then done_quietly (SetValue dest value (VBool True))
                else if uintVal = 2 then done_quietly (SetValue dest value (VBool False))
                else Inl CannotConvertToBool)
             else if Kind_of_Value value \<in> {KUint, KUint32, KUint64}
             then done_quietly (SetUint dest value uintVal)
             else expected ''{uint, uint32, uint64}'')
      else if Type pdu = OctetString then
        (case Value pdu of
           BytesVal bytesVal \<Rightarrow>
             if Kind_of_Value value = KSlice then
               (if map_option kind_of (Option.bind (Type_of_Value value) type_Elem) = Some KUint8
                then done_quietly (SetValue dest value (VBytes bytesVal))
                else Inl ExpectedBytes)
             else if Kind_of_Value value = KString
             then done_quietly (SetValue dest value (VString bytesVal))
             else expected ''string''
         | _ \<Rightarrow> Inl TypeAssertion)
      else if Type pdu = ObjectIdentifier then
        (if Kind_of_Value value = KString then
           (case Value pdu of
              StringVal s \<Rightarrow> done_quietly (SetValue dest value (VString s))
            | _ \<Rightarrow> Inl TypeAssertion)
         else if Kind_of_Value value = KSlice \<and> Type_of_Value value = Some TOID then
           (case Value pdu of
              StringVal s \<Rightarrow>
                (case ParseOID s of
                   Inr oid \<Rightarrow> done_quietly (SetValue dest value (VOID oid))
                 | Inl err \<Rightarrow> Inr (dest, []))
            | _ \<Rightarrow> Inl TypeAssertion)
         else expected ''{snmpmagic.OID,string}'')
      else Inr (dest, [LogUnhandled fieldName (Name pdu) (Type pdu)]))"

text \<open>
  The table of the specification (its section on value coercion), written from its words:
  which declared field types accept which tag.
\<close>

definition spec_accepts :: "Asn1BER \<Rightarrow> GoType \<Rightarrow> bool" where
  "spec_accepts tag t =
     (if tag = Integer then kind_of t \<in> {KInt, KInt8, KInt16, KInt32, KInt64, KBool}
      else if tag \<in> {Counter32, Counter64, Gauge32, TimeTicks, Uinteger32}
      then kind_of t \<in> {KUint, KUint8, KUint16, KUint32, KUint64, KBool}
      else if tag = OctetString
      then kind_of t = KString \<or> map_option kind_of (type_Elem t) = Some KUint8 \<and> kind_of t = KSlice
      else if tag = ObjectIdentifier then kind_of t = KString \<or> t = TOID
      else False)"

text \<open>The payload has the dynamic type the program asserts for the tag.\<close>

definition payload_fits :: "SnmpPDU \<Rightarrow> bool" where
  "payload_fits pdu =
     (if Type pdu = Integer then (case Value pdu of Int64Val i \<Rightarrow> True | IntVal i \<Rightarrow> True | _ \<Rightarrow> False)
      else if Type pdu \<in> {Counter32, Counter64, Gauge32, TimeTicks, Uinteger32}
      then (case Value pdu of Uint64Val u \<Rightarrow> True | UintVal u \<Rightarrow> True | _ \<Rightarrow> False)
      else if Type pdu = OctetString then (case Value pdu of BytesVal b \<Rightarrow> True | _ \<Rightarrow> False)
      else if Type pdu = ObjectIdentifier then (case Value pdu of StringVal s \<Rightarrow> True | _ \<Rightarrow> False)
      else True)"


section \<open>The walker\<close>

text \<open>
  \<open>getOrCreateMapElement\<close> returns the record as it has become (a nil map is made
  before the path is looked at) and either the error or the row and the remainder.
\<close>

definition getOrCreateMapElement ::
  "GoValue \<Rightarrow> Value \<Rightarrow> string \<Rightarrow> OID \<Rightarrow> Panic + (GoValue \<times> (GoError + Value \<times> OID))" where
  "getOrCreateMapElement dest value fqn path =
     (case value of
        ZeroValue \<Rightarrow> Inl ReflectPanic
      | RValue valueType loc canSet \<Rightarrow>
          (case valueType of
             TMap keyType mapElemType \<Rightarrow>
               (case mapElemType of
                  TPtr elemType \<Rightarrow>
                    (case get_at dest loc of
                       Some (VMap m) \<Rightarrow>
                         if m = None \<and> \<not> canSet then Inr (dest, Inl (ErrCannotSet fqn))
                         else
                           (let entries = (case m of None \<Rightarrow> [] | Some es \<Rightarrow> es) in
                            case set_at dest loc (VMap (Some entries)) of
                              None \<Rightarrow> Inl ReflectPanic
                            | Some dest1 \<Rightarrow>
                                if path = [] then Inr (dest1, Inl ErrNoPathElements)
                                else
                                  (let mapKey = last path;
                                       remainder = butlast path;
                                       mapKeyValue =
                                         (if kind_of keyType = KString
                                          then Some (KeyString (FormatUint mapKey))
                                          else if kind_of keyType = KUint
                                          then Some (KeyUint mapKey)
                                          else None)
                                   in case mapKeyValue of
                                        None \<Rightarrow> Inr (dest1, Inl ErrMapKeyKind)
                                      | Some k \<Rightarrow>
                                          (let entries' =
                                                 (case map_of entries k of
                                                    Some (VPtr (Some row)) \<Rightarrow> entries
                                                  | _ \<Rightarrow> AList.update k
                                                           (VPtr (Some (zero_value elemType))) entries)
                                           in case set_at dest1 loc (VMap (Some entries')) of
                                                None \<Rightarrow> Inl ReflectPanic
                                              | Some dest2 \<Rightarrow>
                                                  Inr (dest2,
                                                       Inr (RValue elemType (loc @ [MapElem k, Deref]) True,
                                                            remainder)))))
                     | _ \<Rightarrow> Inl ReflectPanic)
                | _ \<Rightarrow> Inr (dest, Inl ErrMapElemNotPointer))
           | _ \<Rightarrow> Inr (dest, Inl ErrNotAMap)))"

text \<open>
  The loop \<open>for value.Kind() == reflect.Ptr { value = value.Elem() }\<close>: \<open>Elem\<close> of a nil
  pointer is the zero Value, whose kind is not \<open>Ptr\<close>.
\<close>

fun deref_from :: "GoValue \<Rightarrow> GoType \<Rightarrow> Step list \<Rightarrow> bool \<Rightarrow> Value" where
  "deref_from dest (TPtr t) loc canSet =
     (case get_at dest loc of
        Some (VPtr (Some v)) \<Rightarrow> deref_from dest t (loc @ [Deref]) True
      | _ \<Rightarrow> ZeroValue)"
| "deref_from dest t loc canSet = RValue t loc canSet"

definition deref_pointers :: "GoValue \<Rightarrow> Value \<Rightarrow> Value" where
  "deref_pointers dest value =
     (case value of ZeroValue \<Rightarrow> ZeroValue | RValue t loc canSet \<Rightarrow> deref_from dest t loc canSet)"

definition exported :: "string \<Rightarrow> bool" where
  "exported name =
     (case name of [] \<Rightarrow> False | c # cs \<Rightarrow> c \<in> set ''ABCDEFGHIJKLMNOPQRSTUVWXYZ'')"

text \<open>\<open>Value.Field(i)\<close> panics on a Value that is not a struct and on an index out of range.\<close>

definition Field :: "Value \<Rightarrow> int \<Rightarrow> Panic + Value" where
  "Field value i =
     (case value of
        RValue (TStruct name flds) loc canSet \<Rightarrow>
          if 0 \<le> i \<and> i < int (length flds)
          then (case flds ! nat i of
                  (fieldName, snmpTag, t) \<Rightarrow>
                    Inr (RValue t (loc @ [FieldAt (nat i)]) (canSet \<and> exported fieldName)))
          else Inl ReflectPanic
      | _ \<Rightarrow> Inl ReflectPanic)"

text \<open>
  How a call ends: it returns (with or without an error), it panics, or the fuel of its
  loop is used up. A loop that is out of fuel for every amount of fuel never returns.
\<close>

datatype Outcome = Returned "GoError option" | Panicked Panic | OutOfFuel

text \<open>
  The loop \<open>for node != nil\<close> of \<open>HandlePDU\<close>, one unit of fuel for each pass, on the
  record and the log as state.
\<close>

fun HandlePDU_loop ::
  "nat \<Rightarrow> SnmpPDU \<Rightarrow> OID \<Rightarrow> GoValue \<Rightarrow> LogEntry list \<Rightarrow> Value \<Rightarrow> OIDTree option \<Rightarrow> OID
     \<Rightarrow> Outcome \<times> GoValue \<times> LogEntry list" where
  "HandlePDU_loop fuel pdu path dest lg value None remainder = (Returned None, dest, lg)"
| "HandlePDU_loop 0 pdu path dest lg value (Some node) remainder = (OutOfFuel, dest, lg)"
| "HandlePDU_loop (Suc fuel) pdu path dest lg value (Some node) remainder =
     (let value = deref_pointers dest value in
      case (if fieldIndex node \<ge> 0 then Field value (fieldIndex node) else Inr value) of
        Inl p \<Rightarrow> (Panicked p, dest, lg)
      | Inr value \<Rightarrow>
          if fieldIndex node \<ge> 0 \<and> \<not> IsValid value
          then (Returned (Some (ErrInvalidField (fieldQualifiedName node))), dest, lg)
          else
            (case (if IsSuffixCatching node
                   then getOrCreateMapElement dest value (fieldQualifiedName node) remainder
                   else Inr (dest, Inr (value, remainder))) of
               Inl p \<Rightarrow> (Panicked p, dest, lg)
             | Inr (dest, Inl err) \<Rightarrow>
                 (Returned None, dest, lg @ [LogError err (fieldQualifiedName node) path])
             | Inr (dest, Inr (value, remainder)) \<Rightarrow>
                 if IsLeaf node \<and> remainder = [] then
                   (case deserializePDUToValue pdu dest value (fieldQualifiedName node) of
                      Inl p \<Rightarrow> (Panicked p, dest, lg)
                    | Inr (dest', lg') \<Rightarrow> (Returned None, dest', lg @ lg'))
                 else
                   (case FindNext node remainder of
                      (next, remainder') \<Rightarrow>
                        HandlePDU_loop fuel pdu path dest lg value next remainder')))"

record SNMPMagic =
  oidTree :: OIDTree
  destinationType :: GoType
  destination :: GoValue
  isFilled :: int

definition NewSNMPMagic ::
  "TreeCache \<Rightarrow> GoType \<Rightarrow> GoValue \<Rightarrow> (Panic + NumError + SNMPMagic) \<times> TreeCache" where
  "NewSNMPMagic cache dstType dst =
     (case BuildOIDTree cache dstType of
        (Inl p, cache') \<Rightarrow> (Inl p, cache')
      | (Inr (Inl err), cache') \<Rightarrow> (Inr (Inl err), cache')
      | (Inr (Inr tree), cache') \<Rightarrow>
          (Inr (Inr \<lparr>oidTree = tree, destinationType = dstType, destination = dst, isFilled = 0\<rparr>),
           cache'))"

definition HandlePDU ::
  "nat \<Rightarrow> SNMPMagic \<Rightarrow> LogEntry list \<Rightarrow> SnmpPDU \<Rightarrow> Outcome \<times> SNMPMagic \<times> LogEntry list" where
  "HandlePDU fuel self lg pdu =
     (case ParseOID (Name pdu) of
        Inl err \<Rightarrow> (Returned (Some (ErrParseOID err)), self, lg)
      | Inr path \<Rightarrow>
          (case HandlePDU_loop fuel pdu path (destination self) lg
                  (RValue (destinationType self) [] False) (Some (oidTree self)) path of
             (outcome, dest, lg') \<Rightarrow> (outcome, self\<lparr>destination := dest\<rparr>, lg')))"

text \<open>
  The transport. What the program needs of \<open>gosnmp.GoSNMP\<close>: \<open>Connect\<close> may fail,
  \<open>BulkWalk\<close> hands the PDUs under a root to the callback one after the other, stops at
  the first error of the callback and may end with an error of its own, and \<open>Conn.Close\<close>.
  The calls are recorded in \<open>events\<close>.
\<close>

datatype Event = EvConnect | EvBulkWalk string | EvClose

record GoSNMP =
  connectError :: "GoError option"
  responses :: "string \<Rightarrow> SnmpPDU list \<times> GoError option"
  events :: "Event list"

fun deliver ::
  "nat \<Rightarrow> SNMPMagic \<Rightarrow> LogEntry list \<Rightarrow> SnmpPDU list \<Rightarrow> Outcome \<times> SNMPMagic \<times> LogEntry list" where
  "deliver fuel self lg [] = (Returned None, self, lg)"
| "deliver fuel self lg (pdu # pdus) =
     (case HandlePDU fuel self lg pdu of
        (Returned None, self', lg') \<Rightarrow> deliver fuel self' lg' pdus
      | r \<Rightarrow> r)"

definition BulkWalk ::
  "nat \<Rightarrow> SNMPMagic \<Rightarrow> LogEntry list \<Rightarrow> GoSNMP \<Rightarrow> string
     \<Rightarrow> Outcome \<times> SNMPMagic \<times> LogEntry list \<times> GoSNMP" where
  "BulkWalk fuel self lg client rootOid =
     (let client' = client\<lparr>events := events client @ [EvBulkWalk rootOid]\<rparr> in
      case responses client rootOid of
        (pdus, err) \<Rightarrow>
          (case deliver fuel self lg pdus of
             (Returned None, self', lg') \<Rightarrow> (Returned err, self', lg', client')
           | (outcome, self', lg') \<Rightarrow> (outcome, self', lg', client')))"

fun walk_roots ::
  "nat \<Rightarrow> SNMPMagic \<Rightarrow> LogEntry list \<Rightarrow> GoSNMP \<Rightarrow> OID list
     \<Rightarrow> Outcome \<times> SNMPMagic \<times> LogEntry list \<times> GoSNMP" where
  "walk_roots fuel self lg client [] = (Returned None, self, lg, client)"
| "walk_roots fuel self lg client (rootOid # rootOids) =
     (case BulkWalk fuel self lg client (String_OID rootOid) of
        (Returned None, self', lg', client') \<Rightarrow> walk_roots fuel self' lg' client' rootOids
      | r \<Rightarrow> r)"

text \<open>
  \<open>Query\<close>: the compare-and-swap on \<open>isFilled\<close>, \<open>Connect\<close>, the walks, and the deferred
  \<open>Close\<close>, which also runs when a walk panics.
\<close>

definition Query ::
  "nat \<Rightarrow> SNMPMagic \<Rightarrow> LogEntry list \<Rightarrow> GoSNMP \<Rightarrow> Outcome \<times> SNMPMagic \<times> LogEntry list \<times> GoSNMP" where
  "Query fuel self lg client =
     (if isFilled self \<noteq> 0 then (Returned (Some ErrAlreadyFilled), self, lg, client)
      else
        (let self1 = self\<lparr>isFilled := 1\<rparr>;
             client1 = client\<lparr>events := events client @ [EvConnect]\<rparr>
         in case connectError client of
              Some err \<Rightarrow> (Returned (Some err), self1, lg, client1)
            | None \<Rightarrow>
                (case walk_roots fuel self1 lg client1 (PrefixPaths (oidTree self1)) of
                   (OutOfFuel, self', lg', client') \<Rightarrow> (OutOfFuel, self', lg', client')
                 | (outcome, self', lg', client') \<Rightarrow>
                     (outcome, self', lg', client'\<lparr>events := events client' @ [EvClose]\<rparr>))))"

text \<open>
  The schema of the map scenario: a record with one map from \<open>uint\<close> to rows at \<open>.1.2\<close>,
  the row with the columns \<open>A\<close> at \<open>2\<close> and \<open>B\<close> at \<open>3\<close>. In the second schema the two
  columns are at \<open>2.1\<close> and \<open>2.2\<close>.
\<close>

definition RowType :: GoType where
  "RowType = TStruct ''Row'' [(''A'', ''2'', TInt), (''B'', ''3'', TInt)]"

definition RecType :: GoType where
  "RecType = TStruct ''Rec'' [(''M'', ''.1.2'', TMap TUint (TPtr RowType))]"

definition Row2Type :: GoType where
  "Row2Type = TStruct ''Row'' [(''A'', ''2.1'', TInt), (''B'', ''2.2'', TInt)]"

definition Rec2Type :: GoType where
  "Rec2Type = TStruct ''Rec'' [(''M'', ''.1.2'', TMap TUint (TPtr Row2Type))]"

text \<open>The trees \<open>prepare\<close> builds for the two schemas.\<close>

definition scenario_tree :: OIDTree where
  "scenario_tree = OIDTree [1, 2]
      [(2, OIDTree [] [] 0 ''Row.A'' LeafNode), (3, OIDTree [] [] 1 ''Row.B'' LeafNode)]
      0 ''Rec.M'' SuffixCatcherNode"

definition interior_node :: OIDTree where
  "interior_node = OIDTree []
      [(1, OIDTree [] [] 0 ''Row.A'' LeafNode), (2, OIDTree [] [] 1 ''Row.B'' LeafNode)]
      (- 1) [] SimpleNode"

definition scenario2_tree :: OIDTree where
  "scenario2_tree = OIDTree [1, 2] [(2, interior_node)] 0 ''Rec.M'' SuffixCatcherNode"


lemma digit_val_SomeD: "digit_val c = Some d \<Longrightarrow> d < 10 \<and> digit_char d = c"
  by (auto simp: digit_val_def digit_char_def split: if_splits)

lemma digit_val_zero: "digit_val c = Some 0 \<longleftrightarrow> c = CHR ''0''"
  by (auto simp: digit_val_def split: if_splits)

lemma FormatUint_digit: "d < 10 \<Longrightarrow> FormatUint d = [digit_char d]"
  by (simp add: FormatUint.simps)

lemma FormatUint_step:
  assumes "0 < n" "d < 10"
  shows "FormatUint (n * 10 + d) = FormatUint n @ [digit_char d]"
proof -
  have "\<not> n * 10 + d < 10" using assms by simp
  moreover have "(n * 10 + d) div 10 = n" "(n * 10 + d) mod 10 = d" using assms by simp_all
  ultimately show ?thesis by (subst FormatUint.simps) simp
qed

lemma ParseUint_loop_pos:
  "ParseUint_loop n cs = Inr m \<Longrightarrow> 0 < n \<Longrightarrow> FormatUint m = FormatUint n @ cs"
proof (induction cs arbitrary: n)
  case Nil
  then show ?case by simp
next
  case (Cons c cs)
  from Cons.prems(1) obtain d where d: "digit_val c = Some d"
    and rest: "ParseUint_loop (n * 10 + d) cs = Inr m"
    by (auto simp: Let_def split: option.splits if_splits)
  from d have "d < 10" "digit_char d = c" using digit_val_SomeD by blast+
  moreover have "FormatUint m = FormatUint (n * 10 + d) @ cs"
    using Cons.IH [OF rest] Cons.prems(2) by simp
  ultimately show ?case using FormatUint_step [of n d] Cons.prems(2) by simp
qed

lemma ParseUint_loop_zero:
  "ParseUint_loop 0 cs = Inr m \<Longrightarrow> cs \<noteq> [] \<Longrightarrow> FormatUint m = spec_canonical_arc cs"
proof (induction cs)
  case Nil
  then show ?case by simp
next
  case (Cons c cs)
  from Cons.prems(1) obtain d where d: "digit_val c = Some d"
    and rest: "ParseUint_loop d cs = Inr m"
    by (auto simp: Let_def split: option.splits if_splits)
  from d have d10: "d < 10" and dc: "digit_char d = c" using digit_val_SomeD by blast+
  show ?case
  proof (cases "d = 0")
    case True
    with d have c0: "c = CHR ''0''" by (simp add: digit_val_zero)
    show ?thesis
    proof (cases "cs = []")
      case True
      with rest \<open>d = 0\<close> have "m = 0" by simp
      then show ?thesis using True c0
        by (simp add: spec_canonical_arc_def FormatUint.simps digit_char_def)
    next
      case False
      then have "FormatUint m = spec_canonical_arc cs"
        using Cons.IH rest \<open>d = 0\<close> by simp
      then show ?thesis using c0 by (simp add: spec_canonical_arc_def)
    qed
  next
    case False
    then have "c \<noteq> CHR ''0''" using d digit_val_zero [of c] by auto
    moreover have "FormatUint m = FormatUint d @ cs"
      using ParseUint_loop_pos [OF rest] False by simp
    ultimately show ?thesis using d10 dc
      by (simp add: spec_canonical_arc_def FormatUint_digit)
  qed
qed

lemma ParseUint_FormatUint: "ParseUint p = Inr n \<Longrightarrow> FormatUint n = spec_canonical_arc p"
  using ParseUint_loop_zero [of p n] by (auto simp: ParseUint_def split: if_splits)

lemma ParseOID_parts_String:
  "ParseOID_parts ps = Inr oid \<Longrightarrow> String_OID oid = spec_join_dots (map spec_canonical_arc ps)"
proof (induction ps arbitrary: oid)
  case Nil
  then show ?case by simp
next
  case (Cons p ps)
  from Cons.prems obtain n ns where n: "ParseUint p = Inr n"
    and ns: "ParseOID_parts ps = Inr ns" and oid: "oid = n # ns"
    by (auto split: sum.splits)
  have tl: "String_OID ns = spec_join_dots (map spec_canonical_arc ps)"
    using Cons.IH [OF ns] .
  have hd: "FormatUint n = spec_canonical_arc p" using ParseUint_FormatUint [OF n] .
  show ?case
  proof (cases ps)
    case Nil
    with ns have "ns = []" by simp
    then show ?thesis using oid hd Nil by simp
  next
    case (Cons q qs)
    with ns obtain k ks where "ns = k # ks" by (auto split: sum.splits)
    then show ?thesis using oid hd tl Cons by simp
  qed
qed

lemma strings_Split_nonempty: "strings_Split s \<noteq> []"
  by (induction s) (auto split: list.splits)

lemma strings_Split_hd:
  "s \<noteq> [] \<Longrightarrow> hd s \<noteq> CHR ''.'' \<Longrightarrow> hd (strings_Split s) \<noteq> []"
  by (cases s) (auto split: list.splits)

lemma dropWhile_strings_Split:
  "dropWhile (\<lambda>part. part = []) (strings_Split s) =
     (let body = dropWhile (\<lambda>c. c = CHR ''.'') s in
      if body = [] then [] else strings_Split body)"
proof (induction s)
  case Nil
  then show ?case by simp
next
  case (Cons c cs)
  show ?case
  proof (cases "c = CHR ''.''")
    case True
    then show ?thesis using Cons.IH by simp
  next
    case False
    then have "hd (strings_Split (c # cs)) \<noteq> []"
      using strings_Split_hd [of "c # cs"] by simp
    moreover have "strings_Split (c # cs) \<noteq> []" by (rule strings_Split_nonempty)
    ultimately have "dropWhile (\<lambda>part. part = []) (strings_Split (c # cs)) = strings_Split (c # cs)"
      by (cases "strings_Split (c # cs)") auto
    then show ?thesis using False by simp
  qed
qed

text \<open>
  Claim C8. Whenever \<open>ParseOID\<close> accepts a text, formatting the parsed OID gives the
  canonical form of the text: leading dots stripped, every arc an unsigned decimal numeral,
  the arcs joined by single dots. In particular \<open>.1.3.6.1.2.1\<close> parses to the arcs
  1, 3, 6, 1, 2, 1, which format as \<open>1.3.6.1.2.1\<close>.
\<close>

theorem oid_round_trip:
  "(\<forall>s oid. ParseOID s = Inr oid \<longrightarrow> String_OID oid = spec_canonical_form s)
   \<and> ParseOID ''.1.3.6.1.2.1'' = Inr [1, 3, 6, 1, 2, 1]
   \<and> String_OID [1, 3, 6, 1, 2, 1] = ''1.3.6.1.2.1''"
proof (intro conjI allI impI)
  fix s oid
  assume "ParseOID s = Inr oid"
  then show "String_OID oid = spec_canonical_form s"
    using ParseOID_parts_String [of _ oid]
    by (auto simp: ParseOID_def spec_canonical_form_def dropWhile_strings_Split Let_def
             split: if_splits)
next
  show "ParseOID ''.1.3.6.1.2.1'' = Inr [1, 3, 6, 1, 2, 1]"
    by (simp add: ParseOID_def ParseUint_def digit_val_def maxUint64_def)
next
  show "String_OID [1, 3, 6, 1, 2, 1] = ''1.3.6.1.2.1''"
    by (simp add: FormatUint.simps digit_char_def)
qed

theorem oid_round_trip_witness:
  "ParseOID ''..007.12'' = Inr [7, 12] \<and> String_OID [7, 12] = spec_canonical_form ''..007.12''
   \<and> spec_canonical_form ''..007.12'' = ''7.12''"
proof -
  have p: "ParseOID ''..007.12'' = Inr [7, 12]"
    by (simp add: ParseOID_def ParseUint_def digit_val_def maxUint64_def)
  have c: "spec_canonical_form ''..007.12'' = ''7.12''"
    by (simp add: spec_canonical_form_def spec_canonical_arc_def)
  from oid_round_trip p have "String_OID [7, 12] = spec_canonical_form ''..007.12''" by blast
  with p c show ?thesis by simp
qed

lemma lcp_le1: "LongestCommonPrefixLength a b \<le> length a"
  by (induction a b rule: LongestCommonPrefixLength.induct) auto

lemma lcp_le2: "LongestCommonPrefixLength a b \<le> length b"
  by (induction a b rule: LongestCommonPrefixLength.induct) auto

lemma lcp_append: "LongestCommonPrefixLength (c @ a) (c @ b) = length c + LongestCommonPrefixLength a b"
  by (induction c) auto

lemma lcp_prefix1: "LongestCommonPrefixLength a (a @ b) = length a"
  using lcp_append [of a "[]" b] by simp

lemma lcp_prefix2: "LongestCommonPrefixLength (a @ b) a = length a"
  using lcp_append [of a b "[]"] by (cases b) simp_all

lemma lcp_diverge:
  "a \<noteq> b \<Longrightarrow> LongestCommonPrefixLength (c @ a # ra) (c @ b # rb) = length c"
  by (simp add: lcp_append)

lemma lcp_eq_length_iff: "LongestCommonPrefixLength a b = length a \<longleftrightarrow> prefix a b"
  by (induction a b rule: LongestCommonPrefixLength.induct) auto

lemma paths_cases:
  fixes pre p :: OID
  obtains (is_prefix) "prefix p pre"
  | (extends) key childPath where "p = pre @ key # childPath"
  | (diverges) common a ra b rb where "pre = common @ a # ra" "p = common @ b # rb" "a \<noteq> b"
proof (cases "prefix p pre")
  case True
  then show ?thesis by (rule is_prefix)
next
  case np: False
  show ?thesis
  proof (cases "prefix pre p")
    case True
    then obtain r where "p = pre @ r" by (auto simp: prefix_def)
    with np obtain key childPath where "p = pre @ key # childPath" by (cases r) auto
    then show ?thesis by (rule extends)
    next
    case False
    with np have "pre \<parallel> p" by (simp add: parallel_def)
    then obtain common a ra b rb where "a \<noteq> b" "pre = common @ a # ra" "p = common @ b # rb"
      using parallel_decomp by blast
    then show ?thesis using diverges by blast
  qed
qed

lemma child_size: "(k, c) \<in> set cs \<Longrightarrow> size c < Suc (size_list (size_prod (\<lambda>x. 0) size) cs)"
  by (induction cs) auto

lemma child_neq: "map_of (children t) k = Some c \<Longrightarrow> c \<noteq> t"
proof
  assume m: "map_of (children t) k = Some c" and "c = t"
  from m have "(k, c) \<in> set (children t)" by (rule map_of_SomeD)
  then have "size c < size t" using child_size by (cases t) auto
  with \<open>c = t\<close> show False by simp
qed

lemma lookup_unfold:
  "lookup t q =
     (if prefix (prefixOID t) q
      then (case drop (length (prefixOID t)) q of
              [] \<Rightarrow> Some t
            | k # r \<Rightarrow> (case map_of (children t) k of None \<Rightarrow> None | Some c \<Rightarrow> lookup c r))
      else None)"
proof (cases "prefix (prefixOID t) q")
  case True
  then have l: "LongestCommonPrefixLength (prefixOID t) q = length (prefixOID t)"
    by (simp add: lcp_eq_length_iff)
  show ?thesis unfolding lookup_def
    by (subst walk.simps)
       (auto simp: FindNext_def l True child_neq split: list.splits option.splits)
next
  case False
  then have l: "LongestCommonPrefixLength (prefixOID t) q \<noteq> length (prefixOID t)"
    by (simp add: lcp_eq_length_iff)
  show ?thesis unfolding lookup_def
    by (subst walk.simps) (simp add: FindNext_def l False)
qed

lemma walk_remainder: "fst (walk t q) = Some n \<Longrightarrow> snd (walk t q) = []"
proof (induction t q rule: walk.induct)
  case (1 node path)
  show ?case
  proof (cases "FindNext node path")
    case (Pair x r)
    show ?thesis
    proof (cases x)
      case None
      with Pair "1.prems" show ?thesis by (subst (asm) walk.simps) simp
    next
      case (Some nxt)
      show ?thesis
      proof (cases "nxt = node")
        case True
        with Pair Some have "r = []"
          by (auto simp: FindNext_def Let_def child_neq split: if_splits list.splits option.splits)
        with Pair Some True show ?thesis by (subst walk.simps) simp
      next
        case False
        with Pair Some have w: "walk node path = walk nxt r" by (subst walk.simps) simp
        with "1.prems" have "fst (walk nxt r) = Some n" by simp
        then have "snd (walk nxt r) = []" using "1.IH" Pair Some False by simp
        with w show ?thesis by simp
      qed
    qed
  qed
qed

lemma lookup_walk: "lookup t q = Some n \<longleftrightarrow> walk t q = (Some n, [])"
  using walk_remainder [of t q n] by (auto simp: lookup_def prod_eq_iff)

lemma lookup_here [simp]: "lookup (OIDTree pre cs fi fqn nt) pre = Some (OIDTree pre cs fi fqn nt)"
  by (subst lookup_unfold) simp

lemma lookup_self: "lookup t (prefixOID t) = Some t"
  by (subst lookup_unfold) simp

lemma lookup_child:
  "lookup t (prefixOID t @ k # r) =
     (case map_of (children t) k of None \<Rightarrow> None | Some c \<Rightarrow> lookup c r)"
  by (subst lookup_unfold) simp

lemma lookup_SomeD:
  assumes "lookup t q = Some n"
  obtains (here) "q = prefixOID t" "n = t"
  | (below) k r c where "q = prefixOID t @ k # r" "map_of (children t) k = Some c" "lookup c r = Some n"
proof -
  from assms have pre: "prefix (prefixOID t) q"
    by (subst (asm) lookup_unfold) (auto split: if_splits)
  then obtain rest where q: "q = prefixOID t @ rest" by (auto simp: prefix_def)
  show ?thesis
  proof (cases rest)
    case Nil
    with q assms have "q = prefixOID t" "n = t" by (simp_all add: lookup_self)
    then show ?thesis by (rule here)
  next
    case (Cons k r)
    with q assms obtain c where "map_of (children t) k = Some c" "lookup c r = Some n"
      by (auto simp: lookup_child split: option.splits)
    with q Cons show ?thesis using below by blast
  qed
qed

lemma Insert_uninit:
  "nodeType t = UninitializedNode \<Longrightarrow>
   Insert t p fi fqn nt = Inr (OIDTree p (children t) fi fqn nt)"
  by (simp add: Insert.simps Copy_def)

lemma createOrUpdateChild_Cons:
  "createOrUpdateChild t (key # childPath) fi fqn nt =
     (case map_of (children t) key of
        Some child \<Rightarrow>
          (case Insert child childPath fi fqn nt of
             Inl e \<Rightarrow> Inl e
           | Inr child' \<Rightarrow> Inr (set_children t (AList.update key child' (children t))))
      | None \<Rightarrow>
          if IsLeaf t then Inl InsertUnderLeaf
          else Inr (set_children t
                      (AList.update key (OIDTree childPath [] fi fqn nt) (children t))))"
  by (simp add: createOrUpdateChild.simps Copy_def split: option.splits)

lemma Insert_extend:
  assumes "nodeType t \<noteq> UninitializedNode" "p = prefixOID t @ key # childPath"
  shows "Insert t p fi fqn nt = createOrUpdateChild t (key # childPath) fi fqn nt"
  using assms by (simp add: Insert.simps lcp_prefix1 Let_def)

lemma Insert_empty_path:
  "nodeType t \<noteq> UninitializedNode \<Longrightarrow> Insert t [] fi fqn nt = Inl IndexOutOfRange"
  by (cases "prefixOID t") (simp_all add: Insert.simps Let_def)

lemma Insert_prefix:
  assumes "nodeType t \<noteq> UninitializedNode" "prefix p (prefixOID t)"
  shows "Insert t p fi fqn nt = Inl IndexOutOfRange"
proof (cases p rule: rev_cases)
  case Nil
  then show ?thesis using assms(1) by (simp add: Insert_empty_path)
next
  case (snoc front key)
  with assms(2) obtain r where pre: "prefixOID t = front @ key # r"
    by (auto simp: prefix_def)
  have l: "LongestCommonPrefixLength (prefixOID t) p = length p"
    using pre snoc lcp_prefix2 [of "front @ [key]" r] by simp
  define moved where "moved = OIDTree r (children t) (fieldIndex t) (fieldQualifiedName t) (nodeType t)"
  define self' where "self' = OIDTree front [(key, moved)] (- 1) [] SimpleNode"
  have "Insert t p fi fqn nt = createOrUpdateChild self' [key] fi fqn nt"
    using assms(1) l
    by (subst Insert.simps) (auto simp: Let_def pre snoc self'_def moved_def nth_append)
  also have "\<dots> = Inl IndexOutOfRange"
    using assms(1)
    by (simp add: createOrUpdateChild_Cons self'_def Insert_empty_path moved_def)
  finally show ?thesis .
qed

lemma Insert_split:
  assumes "nodeType t \<noteq> UninitializedNode"
    and "prefixOID t = common @ a # ra" and "p = common @ b # rb" and "a \<noteq> b"
  shows "Insert t p fi fqn nt =
           Inr (OIDTree common
                  [(a, OIDTree ra (children t) (fieldIndex t) (fieldQualifiedName t) (nodeType t)),
                   (b, OIDTree rb [] fi fqn nt)]
                  (- 1) [] SimpleNode)"
proof -
  have l: "LongestCommonPrefixLength (prefixOID t) p = length common"
    using assms(2-4) by (simp add: lcp_diverge)
  define moved where "moved = OIDTree ra (children t) (fieldIndex t) (fieldQualifiedName t) (nodeType t)"
  define self' where "self' = OIDTree common [(a, moved)] (- 1) [] SimpleNode"
  have "Insert t p fi fqn nt = createOrUpdateChild self' (b # rb) fi fqn nt"
    using assms(1) l
    by (subst Insert.simps) (auto simp: Let_def assms(2,3) self'_def moved_def nth_append)
  also have "\<dots> = Inr (OIDTree common [(a, moved), (b, OIDTree rb [] fi fqn nt)] (- 1) [] SimpleNode)"
    using assms(4)
    by (simp add: createOrUpdateChild_Cons self'_def IsLeaf_def set_children_def)
  finally show ?thesis by (simp add: moved_def)
qed

lemma set_children_sel [simp]:
  "prefixOID (set_children t cs) = prefixOID t"
  "children (set_children t cs) = cs"
  "nodeType (set_children t cs) = nodeType t"
  "locator_kind (set_children t cs) = locator_kind t"
  by (simp_all add: set_children_def locator_kind_def)

lemma init_tree_nodeType: "init_tree t \<Longrightarrow> nodeType t \<noteq> UninitializedNode"
  by (cases t) simp

lemma init_tree_child: "init_tree t \<Longrightarrow> map_of (children t) k = Some c \<Longrightarrow> init_tree c"
  by (cases t) (auto dest: map_of_SomeD)

lemma set_update_subset: "set (AList.update k v al) \<subseteq> insert (k, v) (set al)"
  by (induction al) auto

lemma init_tree_set_children:
  assumes "nodeType t \<noteq> UninitializedNode" "\<forall>(k, c) \<in> set cs. init_tree c"
  shows "init_tree (set_children t cs)"
  using assms by (simp add: set_children_def)

lemma init_tree_children: "init_tree t \<Longrightarrow> \<forall>(k, c) \<in> set (children t). init_tree c"
  by (cases t) simp

lemma lookup_set_children_key:
  "lookup (set_children t (AList.update key c (children t))) (prefixOID t @ key # r) = lookup c r"
  using lookup_child [of "set_children t (AList.update key c (children t))" key r]
  by (simp add: update_conv')

lemma lookup_set_children_other:
  "k \<noteq> key \<Longrightarrow>
   lookup (set_children t (AList.update key c (children t))) (prefixOID t @ k # r) =
   lookup t (prefixOID t @ k # r)"
  using lookup_child [of "set_children t (AList.update key c (children t))" k r]
    lookup_child [of t k r]
  by (simp add: update_conv')

lemma lookup_leaf_node:
  "lookup (OIDTree pre [] fi fqn nt) q = Some n \<Longrightarrow> q = pre \<and> n = OIDTree pre [] fi fqn nt"
  by (erule lookup_SomeD) auto

text \<open>The created or adopted node is found at the inserted path.\<close>

lemma Insert_lookup_new:
  "Insert t p fi fqn nt = Inr t' \<Longrightarrow>
   \<exists>n. lookup t' p = Some n \<and> locator_kind n = (fi, fqn, nt)"
proof (induction p arbitrary: t t' rule: length_induct)
  case (1 p)
  show ?case
  proof (cases "nodeType t = UninitializedNode")
    case True
    with "1.prems" have "t' = OIDTree p (children t) fi fqn nt" by (simp add: Insert_uninit)
    then show ?thesis by (simp add: locator_kind_def)
  next
    case init: False
    show ?thesis
    proof (cases p "prefixOID t" rule: paths_cases)
      case is_prefix
      with init "1.prems" show ?thesis by (simp add: Insert_prefix)
    next
      case (extends key childPath)
      have ins: "createOrUpdateChild t (key # childPath) fi fqn nt = Inr t'"
        using "1.prems" Insert_extend [OF init extends] by simp
      show ?thesis
      proof (cases "map_of (children t) key")
        case None
        with ins have "t' = set_children t
            (AList.update key (OIDTree childPath [] fi fqn nt) (children t))"
          by (auto simp: createOrUpdateChild_Cons split: if_splits)
        then show ?thesis using extends
          by (simp add: lookup_set_children_key locator_kind_def)
      next
        case (Some child)
        with ins obtain child' where c: "Insert child childPath fi fqn nt = Inr child'"
          and t': "t' = set_children t (AList.update key child' (children t))"
          by (auto simp: createOrUpdateChild_Cons split: sum.splits)
        have "length childPath < length p" using extends by simp
        with "1.IH" c obtain n where "lookup child' childPath = Some n"
          "locator_kind n = (fi, fqn, nt)" by blast
        then show ?thesis using t' extends by (simp add: lookup_set_children_key)
      qed
    next
      case (diverges common a ra b rb)
      then have "lookup t' p = Some (OIDTree rb [] fi fqn nt)"
        using "1.prems" Insert_split [OF init diverges]
          lookup_child [of "OIDTree common [(a, OIDTree ra (children t) (fieldIndex t)
             (fieldQualifiedName t) (nodeType t)), (b, OIDTree rb [] fi fqn nt)] (- 1) [] SimpleNode" b rb]
        by simp
      then show ?thesis by (simp add: locator_kind_def)
    qed
  qed
qed

lemma lookup_moved:
  "lookup (OIDTree ra cs fi fqn nt) (ra @ r) =
     (if r = [] then Some (OIDTree ra cs fi fqn nt)
      else lookup (OIDTree (common @ a # ra) cs fi fqn nt) (common @ a # ra @ r))"
proof (cases r)
  case Nil
  then show ?thesis by simp
next
  case (Cons k r')
  then show ?thesis
    using lookup_child [of "OIDTree ra cs fi fqn nt" k r']
      lookup_child [of "OIDTree (common @ a # ra) cs fi fqn nt" k r']
    by simp
qed

text \<open>What was found before an insertion is found after it, with the same locator and kind.\<close>

lemma Insert_lookup_old:
  "Insert t p fi fqn nt = Inr t' \<Longrightarrow> init_tree t \<Longrightarrow> lookup t q = Some n \<Longrightarrow>
   \<exists>n'. lookup t' q = Some n' \<and> locator_kind n' = locator_kind n"
proof (induction p arbitrary: t t' q rule: length_induct)
  case (1 p)
  have init: "nodeType t \<noteq> UninitializedNode" using "1.prems"(2) by (rule init_tree_nodeType)
  show ?case
  proof (cases p "prefixOID t" rule: paths_cases)
    case is_prefix
    with init "1.prems" show ?thesis by (simp add: Insert_prefix)
  next
    case (extends key childPath)
    have ins: "createOrUpdateChild t (key # childPath) fi fqn nt = Inr t'"
      using "1.prems"(1) Insert_extend [OF init extends] by simp
    from ins obtain c' where t': "t' = set_children t (AList.update key c' (children t))"
      and c': "case map_of (children t) key of
                 None \<Rightarrow> True | Some child \<Rightarrow> Insert child childPath fi fqn nt = Inr c'"
      by (auto simp: createOrUpdateChild_Cons split: sum.splits option.splits if_splits)
    from "1.prems"(3) show ?thesis
    proof (cases rule: lookup_SomeD)
      case here
      then have "lookup t' q = Some t'" using t' lookup_self [of t'] by simp
      then show ?thesis using here t' by simp
    next
      case (below k r c)
      show ?thesis
      proof (cases "k = key")
        case True
        with below c' have i: "Insert c childPath fi fqn nt = Inr c'" by simp
        have "init_tree c" using "1.prems"(2) below(2) by (rule init_tree_child)
        moreover have "length childPath < length p" using extends by simp
        ultimately obtain n' where "lookup c' r = Some n'" "locator_kind n' = locator_kind n"
          using "1.IH" i below(3) by blast
        then show ?thesis using t' below(1) True by (simp add: lookup_set_children_key)
      next
        case False
        then have "lookup t' q = lookup t q"
          using t' below(1) by (simp add: lookup_set_children_other)
        then show ?thesis using "1.prems"(3) by simp
      qed
    qed
  next
    case (diverges common a ra b rb)
    define moved where "moved = OIDTree ra (children t) (fieldIndex t) (fieldQualifiedName t) (nodeType t)"
    have t': "t' = OIDTree common [(a, moved), (b, OIDTree rb [] fi fqn nt)] (- 1) [] SimpleNode"
      using "1.prems"(1) Insert_split [OF init diverges] by (simp add: moved_def)
    have t: "t = OIDTree (common @ a # ra) (children t) (fieldIndex t) (fieldQualifiedName t) (nodeType t)"
      using diverges(1) by (cases t) simp
    from "1.prems"(3) obtain r where q: "q = common @ a # ra @ r"
      using diverges(1) by (cases rule: lookup_SomeD) auto
    have "lookup t' q = lookup moved (ra @ r)"
      using t' q lookup_child [of t' a "ra @ r"] by simp
    also have "\<dots> = (if r = [] then Some moved else lookup t q)"
      unfolding moved_def using lookup_moved [of ra "children t" _ _ _ r common a] t q by simp
    finally have l: "lookup t' q = (if r = [] then Some moved else lookup t q)" .
    show ?thesis
    proof (cases "r = []")
      case True
      then have "n = t" using "1.prems"(3) q diverges(1) lookup_self [of t] by simp
      then show ?thesis using l True by (simp add: moved_def locator_kind_def)
    next
      case False
      then show ?thesis using l "1.prems"(3) by simp
    qed
  qed
qed

text \<open>Insertion keeps every node initialised.\<close>

lemma Insert_init_tree:
  "Insert t p fi fqn nt = Inr t' \<Longrightarrow> nt \<noteq> UninitializedNode \<Longrightarrow>
   \<forall>(k, c) \<in> set (children t). init_tree c \<Longrightarrow> init_tree t'"
proof (induction p arbitrary: t t' rule: length_induct)
  case (1 p)
  show ?case
  proof (cases "nodeType t = UninitializedNode")
    case True
    with "1.prems" show ?thesis by (auto simp: Insert_uninit)
  next
    case init: False
    show ?thesis
    proof (cases p "prefixOID t" rule: paths_cases)
      case is_prefix
      with init "1.prems" show ?thesis by (simp add: Insert_prefix)
    next
      case (extends key childPath)
      have ins: "createOrUpdateChild t (key # childPath) fi fqn nt = Inr t'"
        using "1.prems"(1) Insert_extend [OF init extends] by simp
      from ins obtain c' where t': "t' = set_children t (AList.update key c' (children t))"
        and c': "case map_of (children t) key of
                   None \<Rightarrow> c' = OIDTree childPath [] fi fqn nt
                 | Some child \<Rightarrow> Insert child childPath fi fqn nt = Inr c'"
        by (auto simp: createOrUpdateChild_Cons split: sum.splits option.splits if_splits)
      have "init_tree c'"
      proof (cases "map_of (children t) key")
        case None
        with c' "1.prems"(2) show ?thesis by simp
      next
        case (Some child)
        then have "(key, child) \<in> set (children t)" by (rule map_of_SomeD)
        with "1.prems"(3) have "init_tree child" by auto
        then have "\<forall>(k, c) \<in> set (children child). init_tree c" by (rule init_tree_children)
        moreover have "length childPath < length p" using extends by simp
        moreover have "Insert child childPath fi fqn nt = Inr c'" using c' Some by simp
        ultimately show ?thesis using "1.IH" "1.prems"(2) by blast
      qed
      then have "\<forall>(k, c) \<in> set (AList.update key c' (children t)). init_tree c"
        using "1.prems"(3) set_update_subset [of key c' "children t"] by auto
      then show ?thesis unfolding t' using init by (rule init_tree_set_children [rotated])
    next
      case (diverges common a ra b rb)
      then show ?thesis
        using "1.prems" Insert_split [OF init diverges] init by auto
    qed
  qed
qed

text \<open>When an insertion does not panic.\<close>

lemma Insert_no_panic:
  "init_tree t \<Longrightarrow>
   (\<And>A n. lookup t A = Some n \<Longrightarrow> \<not> prefix p A \<and> (nodeType n = LeafNode \<longrightarrow> \<not> prefix A p)) \<Longrightarrow>
   \<exists>t'. Insert t p fi fqn nt = Inr t'"
proof (induction p arbitrary: t rule: length_induct)
  case (1 p)
  have init: "nodeType t \<noteq> UninitializedNode" using "1.prems"(1) by (rule init_tree_nodeType)
  have self: "\<not> prefix p (prefixOID t)" "nodeType t = LeafNode \<longrightarrow> \<not> prefix (prefixOID t) p"
    using "1.prems"(2) [OF lookup_self] by simp_all
  show ?case
  proof (cases p "prefixOID t" rule: paths_cases)
    case is_prefix
    with self show ?thesis by simp
  next
    case (extends key childPath)
    with self have notleaf: "\<not> IsLeaf t" by (auto simp: IsLeaf_def)
    show ?thesis
    proof (cases "map_of (children t) key")
      case None
      then show ?thesis using notleaf Insert_extend [OF init extends]
        by (simp add: createOrUpdateChild_Cons)
    next
      case (Some child)
      have "init_tree child" using "1.prems"(1) Some by (rule init_tree_child)
      moreover have "length childPath < length p" using extends by simp
      moreover have "\<not> prefix childPath A \<and> (nodeType n = LeafNode \<longrightarrow> \<not> prefix A childPath)"
        if "lookup child A = Some n" for A n
      proof -
        have "lookup t (prefixOID t @ key # A) = Some n"
          using that Some by (simp add: lookup_child)
        from "1.prems"(2) [OF this] show ?thesis using extends by simp
      qed
      ultimately obtain c' where "Insert child childPath fi fqn nt = Inr c'"
        using "1.IH" by blast
      then show ?thesis using Some Insert_extend [OF init extends]
        by (simp add: createOrUpdateChild_Cons)
    qed
  next
    case (diverges common a ra b rb)
    then show ?thesis using Insert_split [OF init diverges] by simp
  qed
qed

text \<open>Where the nodes found after an insertion come from.\<close>

lemma Insert_lookup_origin:
  "Insert t p fi fqn nt = Inr t' \<Longrightarrow> init_tree t \<Longrightarrow> lookup t' A = Some n' \<Longrightarrow>
   (A = p \<and> locator_kind n' = (fi, fqn, nt))
   \<or> (\<exists>n. lookup t A = Some n \<and> locator_kind n = locator_kind n')
   \<or> (locator_kind n' = (- 1, [], SimpleNode) \<and> prefix A p)"
proof (induction p arbitrary: t t' A rule: length_induct)
  case (1 p)
  have init: "nodeType t \<noteq> UninitializedNode" using "1.prems"(2) by (rule init_tree_nodeType)
  show ?case
  proof (cases p "prefixOID t" rule: paths_cases)
    case is_prefix
    with init "1.prems" show ?thesis by (simp add: Insert_prefix)
  next
    case (extends key childPath)
    have ins: "createOrUpdateChild t (key # childPath) fi fqn nt = Inr t'"
      using "1.prems"(1) Insert_extend [OF init extends] by simp
    from ins obtain c' where t': "t' = set_children t (AList.update key c' (children t))"
      and c': "case map_of (children t) key of
                 None \<Rightarrow> c' = OIDTree childPath [] fi fqn nt
               | Some child \<Rightarrow> Insert child childPath fi fqn nt = Inr c'"
      by (auto simp: createOrUpdateChild_Cons split: sum.splits option.splits if_splits)
    from "1.prems"(3) show ?thesis
    proof (cases rule: lookup_SomeD)
      case here
      then have "lookup t A = Some t" "locator_kind t = locator_kind n'"
        using t' lookup_self [of t] by simp_all
      then show ?thesis by blast
    next
      case (below k r c)
      show ?thesis
      proof (cases "k = key")
        case True
        with below t' have cc: "c = c'" and A: "A = prefixOID t @ key # r"
          by (simp_all add: update_conv')
        show ?thesis
        proof (cases "map_of (children t) key")
          case None
          with c' cc below(3) have "r = childPath \<and> n' = OIDTree childPath [] fi fqn nt"
            using lookup_leaf_node by simp
          then show ?thesis using A extends by (simp add: locator_kind_def)
        next
          case (Some child)
          with c' have i: "Insert child childPath fi fqn nt = Inr c'" by simp
          have "init_tree child" using "1.prems"(2) Some by (rule init_tree_child)
          moreover have "length childPath < length p" using extends by simp
          ultimately have "(r = childPath \<and> locator_kind n' = (fi, fqn, nt))
             \<or> (\<exists>n. lookup child r = Some n \<and> locator_kind n = locator_kind n')
             \<or> (locator_kind n' = (- 1, [], SimpleNode) \<and> prefix r childPath)"
            using "1.IH" i below(3) cc by blast
          then show ?thesis using A extends Some by (auto simp: lookup_child)
        qed
      next
        case False
        then have "lookup t A = lookup t' A"
          using t' below(1) by (simp add: lookup_set_children_other)
        then show ?thesis using "1.prems"(3) by auto
      qed
    qed
  next
    case (diverges common a ra b rb)
    define moved where "moved = OIDTree ra (children t) (fieldIndex t) (fieldQualifiedName t) (nodeType t)"
    have t': "t' = OIDTree common [(a, moved), (b, OIDTree rb [] fi fqn nt)] (- 1) [] SimpleNode"
      using "1.prems"(1) Insert_split [OF init diverges] by (simp add: moved_def)
    have t: "t = OIDTree (common @ a # ra) (children t) (fieldIndex t) (fieldQualifiedName t) (nodeType t)"
      using diverges(1) by (cases t) simp
    from "1.prems"(3) show ?thesis
    proof (cases rule: lookup_SomeD)
      case here
      then show ?thesis using t' diverges(2) by (simp add: locator_kind_def)
    next
      case (below k r c)
      have kc: "(k = a \<and> c = moved) \<or> (k = b \<and> c = OIDTree rb [] fi fqn nt)"
        using below(2) t' by (auto split: if_splits)
      then show ?thesis
      proof
        assume "k = a \<and> c = moved"
        then have k: "k = a" and c: "c = moved" by simp_all
        from below(3) c obtain r' where r: "r = ra @ r'"
          by (cases rule: lookup_SomeD) (auto simp: moved_def)
        have A: "A = common @ a # ra @ r'" using below(1) t' k r by simp
        have "lookup moved (ra @ r') = (if r' = [] then Some moved else lookup t A)"
          unfolding moved_def using lookup_moved [of ra "children t" _ _ _ r' common a] t A by simp
        then have l: "Some n' = (if r' = [] then Some moved else lookup t A)"
          using below(3) c r by simp
        show ?thesis
        proof (cases "r' = []")
          case True
          then have "lookup t A = Some t" using A diverges(1) lookup_self [of t] by simp
          moreover have "locator_kind t = locator_kind n'"
            using l True by (simp add: moved_def locator_kind_def)
          ultimately show ?thesis by blast
        next
          case False
          with l have "lookup t A = Some n'" by simp
          then show ?thesis by blast
        qed
      next
        assume "k = b \<and> c = OIDTree rb [] fi fqn nt"
        then have "r = rb \<and> n' = OIDTree rb [] fi fqn nt"
          using below(3) lookup_leaf_node by simp
        then show ?thesis using below(1) t' diverges(2) \<open>k = b \<and> c = OIDTree rb [] fi fqn nt\<close>
          by (simp add: locator_kind_def)
      qed
    qed
  qed
qed

lemma tree_of_entries_first:
  assumes "insertable [] (p, fi, fqn, nt)"
  shows "\<exists>t'. Insert NewOIDTree p fi fqn nt = Inr t' \<and> tree_of_entries t' [(p, fi, fqn, nt)]"
proof -
  have nt: "nt \<noteq> UninitializedNode" using assms by (simp add: insertable_def)
  have i: "Insert NewOIDTree p fi fqn nt = Inr (OIDTree p [] fi fqn nt)"
    by (simp add: Insert_uninit NewOIDTree_def)
  have "A = p \<and> locator_kind n = (fi, fqn, nt)"
    if "lookup (OIDTree p [] fi fqn nt) A = Some n" for A n
    using lookup_leaf_node [OF that] by (simp add: locator_kind_def)
  then have "tree_of_entries (OIDTree p [] fi fqn nt) [(p, fi, fqn, nt)]"
    unfolding tree_of_entries_def using nt by (simp add: locator_kind_def)
  with i show ?thesis by simp
qed

lemma tree_of_entries_step:
  assumes inv: "tree_of_entries t ds" and ne: "ds \<noteq> []"
    and ok: "insertable ds (p, fi, fqn, nt)"
  shows "\<exists>t'. Insert t p fi fqn nt = Inr t' \<and> tree_of_entries t' (ds @ [(p, fi, fqn, nt)])"
proof -
  from inv ne have init: "init_tree t"
    and found: "\<And>q fi' fqn' nt'. (q, fi', fqn', nt') \<in> set ds \<Longrightarrow>
        \<exists>n. lookup t q = Some n \<and> locator_kind n = (fi', fqn', nt')"
    and origin: "\<And>A n. lookup t A = Some n \<Longrightarrow>
        \<exists>(q, fi', fqn', nt') \<in> set ds.
           (A = q \<and> locator_kind n = (fi', fqn', nt'))
           \<or> (locator_kind n = (- 1, [], SimpleNode) \<and> prefix A q)"
    by (auto simp: tree_of_entries_def)
  from ok have nt: "nt \<noteq> UninitializedNode"
    and order: "\<And>q fi' fqn' nt'. (q, fi', fqn', nt') \<in> set ds \<Longrightarrow>
        \<not> prefix p q \<and> (nt' = LeafNode \<longrightarrow> \<not> prefix q p)"
    by (auto simp: insertable_def)
  have "\<not> prefix p A \<and> (nodeType n = LeafNode \<longrightarrow> \<not> prefix A p)"
    if "lookup t A = Some n" for A n
  proof -
    from origin [OF that] obtain q fi' fqn' nt' where d: "(q, fi', fqn', nt') \<in> set ds"
      and c: "(A = q \<and> locator_kind n = (fi', fqn', nt'))
           \<or> (locator_kind n = (- 1, [], SimpleNode) \<and> prefix A q)"
      by auto
    from c have Aq: "prefix A q" by auto
    have "\<not> prefix p A" using order [OF d] Aq prefix_order.trans by blast
    moreover have "\<not> prefix A p" if "nodeType n = LeafNode"
      using c that order [OF d] by (auto simp: locator_kind_def)
    ultimately show ?thesis by simp
  qed
  with init obtain t' where t': "Insert t p fi fqn nt = Inr t'"
    using Insert_no_panic by blast
  have "init_tree t'"
    using Insert_init_tree [OF t' nt] init_tree_children [OF init] by simp
  moreover have "\<exists>n. lookup t' q = Some n \<and> locator_kind n = (fi', fqn', nt')"
    if "(q, fi', fqn', nt') \<in> set (ds @ [(p, fi, fqn, nt)])" for q fi' fqn' nt'
  proof (cases "(q, fi', fqn', nt') \<in> set ds")
    case True
    from found [OF this] Insert_lookup_old [OF t' init] show ?thesis by fastforce
  next
    case False
    with that have "(q, fi', fqn', nt') = (p, fi, fqn, nt)" by simp
    then show ?thesis using Insert_lookup_new [OF t'] by simp
  qed
  moreover have "\<exists>(q, fi', fqn', nt') \<in> set (ds @ [(p, fi, fqn, nt)]).
           (A = q \<and> locator_kind n' = (fi', fqn', nt'))
           \<or> (locator_kind n' = (- 1, [], SimpleNode) \<and> prefix A q)"
    if "lookup t' A = Some n'" for A n'
  proof -
    from Insert_lookup_origin [OF t' init that]
    consider "A = p \<and> locator_kind n' = (fi, fqn, nt)"
      | n where "lookup t A = Some n" "locator_kind n = locator_kind n'"
      | "locator_kind n' = (- 1, [], SimpleNode) \<and> prefix A p"
      by blast
    then show ?thesis
    proof cases
      case 1
      then show ?thesis by auto
    next
      case 2
      from origin [OF 2(1)] 2(2) show ?thesis by auto
    next
      case 3
      then show ?thesis by auto
    qed
  qed
  ultimately have "tree_of_entries t' (ds @ [(p, fi, fqn, nt)])"
    unfolding tree_of_entries_def by (simp del: set_append) blast
  with t' show ?thesis by blast
qed

lemma InsertAll_tree_of_entries:
  "tree_of_entries t ds \<Longrightarrow> insertion_order ds es \<Longrightarrow>
   \<exists>t'. InsertAll t es = Inr t' \<and> tree_of_entries t' (ds @ es)"
proof (induction es arbitrary: t ds)
  case Nil
  then show ?case by simp
next
  case (Cons e es)
  obtain p fi fqn nt where e: "e = (p, fi, fqn, nt)" by (cases e) auto
  from Cons.prems(2) have ok: "insertable ds (p, fi, fqn, nt)"
    and rest: "insertion_order (ds @ [e]) es" by (simp_all add: e)
  have "\<exists>t'. Insert t p fi fqn nt = Inr t' \<and> tree_of_entries t' (ds @ [(p, fi, fqn, nt)])"
  proof (cases "ds = []")
    case True
    with Cons.prems(1) have "t = NewOIDTree" by (simp add: tree_of_entries_def)
    then show ?thesis using tree_of_entries_first ok True by simp
  next
    case False
    then show ?thesis using tree_of_entries_step Cons.prems(1) ok by blast
  qed
  then obtain t1 where t1: "Insert t p fi fqn nt = Inr t1"
    and inv1: "tree_of_entries t1 (ds @ [e])" by (auto simp: e)
  from Cons.IH [OF inv1 rest] obtain t' where "InsertAll t1 es = Inr t'"
    "tree_of_entries t' ((ds @ [e]) @ es)" by blast
  then show ?case using t1 by (simp add: e)
qed

lemma InsertAll_fresh:
  assumes "insertion_order [] es"
  shows "\<exists>t. InsertAll NewOIDTree es = Inr t \<and> tree_of_entries t es"
  using InsertAll_tree_of_entries [of NewOIDTree "[]" es] assms
  by (simp add: tree_of_entries_def)

lemma PrefixPaths_unfold:
  "PrefixPaths t =
     (if IsLeaf t then []
      else if IsSuffixCatching t then [prefixOID t]
      else concat (map (\<lambda>(key, child). map (\<lambda>path. prefixOID t @ [key] @ path) (PrefixPaths child))
                     (children t)))"
  by (cases t) (simp add: IsLeaf_def IsSuffixCatching_def Copy_def)

lemma PrefixPaths_interior:
  assumes "\<not> IsLeaf t" "\<not> IsSuffixCatching t"
  shows "r \<in> set (PrefixPaths t) \<longleftrightarrow>
         (\<exists>k c r'. (k, c) \<in> set (children t) \<and> r' \<in> set (PrefixPaths c) \<and> r = prefixOID t @ k # r')"
  using assms by (subst PrefixPaths_unfold) auto

lemma distinct_keys_child:
  "distinct_keys t \<Longrightarrow> (k, c) \<in> set (children t) \<Longrightarrow> distinct_keys c \<and> map_of (children t) k = Some c"
  by (cases t) auto

lemma tree_induct [case_names node]:
  assumes "\<And>t. (\<And>k c. (k, c) \<in> set (children t) \<Longrightarrow> P c) \<Longrightarrow> P t"
  shows "P t"
proof (induction t rule: measure_induct_rule [where f = size])
  case (less t)
  show ?case
  proof (rule assms)
    fix k c
    assume "(k, c) \<in> set (children t)"
    then have "size c < size t" using child_size by (cases t) auto
    then show "P c" by (rule less.IH)
  qed
qed

text \<open>Every returned path is the path of a suffix-catching node.\<close>

lemma PrefixPaths_are_catchers:
  "distinct_keys t \<Longrightarrow> r \<in> set (PrefixPaths t) \<Longrightarrow>
   \<exists>n. lookup t r = Some n \<and> IsSuffixCatching n"
proof (induction t arbitrary: r rule: tree_induct)
  case (node t)
  show ?case
  proof (cases "IsLeaf t \<or> IsSuffixCatching t")
    case True
    with node.prems(2) have "IsSuffixCatching t" "r = prefixOID t"
      by (auto simp: PrefixPaths_unfold split: if_splits)
    then show ?thesis using lookup_self [of t] by simp
  next
    case False
    with node.prems(2) obtain k c r' where kc: "(k, c) \<in> set (children t)"
      and r': "r' \<in> set (PrefixPaths c)" and r: "r = prefixOID t @ k # r'"
      by (auto simp: PrefixPaths_interior)
    from distinct_keys_child [OF node.prems(1) kc]
    have "distinct_keys c" "map_of (children t) k = Some c" by simp_all
    moreover from node.IH [OF kc \<open>distinct_keys c\<close> r'] obtain n
      where "lookup c r' = Some n" "IsSuffixCatching n" by blast
    ultimately show ?thesis using r by (auto simp: lookup_child)
  qed
qed

text \<open>No returned path lies strictly below a suffix-catching node.\<close>

lemma PrefixPaths_not_below_catcher:
  "distinct_keys t \<Longrightarrow> lookup t A = Some n \<Longrightarrow> IsSuffixCatching n \<Longrightarrow>
   r \<in> set (PrefixPaths t) \<Longrightarrow> \<not> strict_prefix A r"
proof (induction t arbitrary: A r rule: tree_induct)
  case (node t)
  from node.prems(2) have pre: "prefix (prefixOID t) A"
    by (cases rule: lookup_SomeD) auto
  show ?case
  proof (cases "IsLeaf t \<or> IsSuffixCatching t")
    case True
    with node.prems(4) have "r = prefixOID t"
      by (auto simp: PrefixPaths_unfold split: if_splits)
    with pre show ?thesis by (auto simp: strict_prefix_def)
  next
    case False
    with node.prems(4) obtain k c r' where kc: "(k, c) \<in> set (children t)"
      and r': "r' \<in> set (PrefixPaths c)" and r: "r = prefixOID t @ k # r'"
      by (auto simp: PrefixPaths_interior)
    from distinct_keys_child [OF node.prems(1) kc]
    have dc: "distinct_keys c" and mc: "map_of (children t) k = Some c" by simp_all
    from node.prems(2) show ?thesis
    proof (cases rule: lookup_SomeD)
      case here
      with node.prems(3) False show ?thesis by simp
    next
      case (below k' A' c')
      show ?thesis
      proof
        assume sp: "strict_prefix A r"
        with below(1) r have "k' = k" and sp': "strict_prefix A' r'"
          by (auto simp: strict_prefix_def)
        with below(2) mc have "c' = c" by simp
        with node.IH [OF kc dc _ node.prems(3) r'] below(3) sp' show False by blast
      qed
    qed
  qed
qed

text \<open>
  A suffix-catching node with no leaf and no suffix-catching node above it contributes
  its path.
\<close>

lemma PrefixPaths_has_catcher:
  "lookup t A = Some n \<Longrightarrow> IsSuffixCatching n \<Longrightarrow>
   (\<And>B m. strict_prefix B A \<Longrightarrow> lookup t B = Some m \<Longrightarrow> \<not> IsLeaf m \<and> \<not> IsSuffixCatching m) \<Longrightarrow>
   A \<in> set (PrefixPaths t)"
proof (induction t arbitrary: A rule: tree_induct)
  case (node t)
  from node.prems(1) show ?case
  proof (cases rule: lookup_SomeD)
    case here
    with node.prems(2) show ?thesis
      by (simp add: PrefixPaths_unfold IsLeaf_def IsSuffixCatching_def)
  next
    case (below k A' c)
    have "strict_prefix (prefixOID t) A" using below(1) by (simp add: strict_prefix_def)
    from node.prems(3) [OF this lookup_self]
    have nl: "\<not> IsLeaf t" "\<not> IsSuffixCatching t" by simp_all
    have kc: "(k, c) \<in> set (children t)" using below(2) by (rule map_of_SomeD)
    have "\<not> IsLeaf m \<and> \<not> IsSuffixCatching m"
      if "strict_prefix B A'" "lookup c B = Some m" for B m
    proof -
      have "strict_prefix (prefixOID t @ k # B) A"
        using that(1) below(1) by (auto simp: strict_prefix_def)
      moreover have "lookup t (prefixOID t @ k # B) = Some m"
        using that(2) below(2) by (simp add: lookup_child)
      ultimately show ?thesis by (rule node.prems(3))
    qed
    with node.IH [OF kc below(3) node.prems(2)] have "A' \<in> set (PrefixPaths c)" by blast
    with kc below(1) nl show ?thesis by (auto simp: PrefixPaths_interior)
  qed
qed

lemma distinct_concat_keys:
  assumes "distinct (map fst cs)"
    and "\<And>k c. (k, c) \<in> set cs \<Longrightarrow> distinct (f c)"
  shows "distinct (concat (map (\<lambda>(k, c). map (\<lambda>path. pre @ [k] @ path) (f c)) cs))"
  using assms
proof (induction cs)
  case Nil
  then show ?case by simp
next
  case (Cons kc cs)
  obtain k c where kc: "kc = (k, c)" by (cases kc) auto
  have "distinct (map (\<lambda>path. pre @ [k] @ path) (f c))"
    using Cons.prems(2) [of k c] kc by (simp add: distinct_map inj_on_def)
  moreover have "distinct (concat (map (\<lambda>(k, c). map (\<lambda>path. pre @ [k] @ path) (f c)) cs))"
    using Cons.IH Cons.prems by auto
  moreover have "k \<noteq> k'" if "(k', c') \<in> set cs" for k' c'
    using Cons.prems(1) that kc by (auto simp: image_iff)
  then have "set (map (\<lambda>path. pre @ [k] @ path) (f c))
      \<inter> set (concat (map (\<lambda>(k, c). map (\<lambda>path. pre @ [k] @ path) (f c)) cs)) = {}"
    by auto
  ultimately show ?case by (simp add: kc)
qed

lemma PrefixPaths_distinct: "distinct_keys t \<Longrightarrow> distinct (PrefixPaths t)"
proof (induction t rule: tree_induct)
  case (node t)
  have "distinct (PrefixPaths c)" if "(k, c) \<in> set (children t)" for k c
    using node.IH [OF that] distinct_keys_child [OF node.prems that] by simp
  moreover have "distinct (map fst (children t))" using node.prems by (cases t) simp
  ultimately show ?case
    using distinct_concat_keys [of "children t" PrefixPaths "prefixOID t"]
    by (subst PrefixPaths_unfold) simp
qed

text \<open>
  Claim C9. In a tree whose maps have each key once, \<open>PrefixPaths\<close> returns nothing for
  a leaf, exactly its own prefix for a suffix-catching node (nothing from below it), and for
  any other node, for each child, the node's prefix followed by the key followed by each
  path of the child. Hence every returned path is the path from the root of a
  suffix-catching node, no returned path lies strictly below a suffix-catching node, a
  suffix-catching node with no leaf and no suffix-catching node above it contributes its
  path, and no path is returned twice.
\<close>

theorem prefix_paths_stop_at_catchers:
  assumes "distinct_keys t"
  shows "(IsLeaf t \<longrightarrow> PrefixPaths t = [])
    \<and> (IsSuffixCatching t \<longrightarrow> PrefixPaths t = [prefixOID t])
    \<and> (\<not> IsLeaf t \<and> \<not> IsSuffixCatching t \<longrightarrow>
         PrefixPaths t =
           concat (map (\<lambda>(key, child). map (\<lambda>path. prefixOID t @ [key] @ path) (PrefixPaths child))
                     (children t)))
    \<and> (\<forall>r \<in> set (PrefixPaths t). \<exists>n. lookup t r = Some n \<and> IsSuffixCatching n)
    \<and> (\<forall>A n. lookup t A = Some n \<and> IsSuffixCatching n \<longrightarrow>
          (\<forall>r \<in> set (PrefixPaths t). \<not> strict_prefix A r))
    \<and> (\<forall>A n. lookup t A = Some n \<and> IsSuffixCatching n
           \<and> (\<forall>B m. strict_prefix B A \<and> lookup t B = Some m \<longrightarrow> \<not> IsLeaf m \<and> \<not> IsSuffixCatching m)
          \<longrightarrow> A \<in> set (PrefixPaths t))
    \<and> distinct (PrefixPaths t)"
proof (intro conjI)
  show "IsLeaf t \<longrightarrow> PrefixPaths t = []" by (simp add: PrefixPaths_unfold)
  show "IsSuffixCatching t \<longrightarrow> PrefixPaths t = [prefixOID t]"
    by (simp add: PrefixPaths_unfold IsLeaf_def IsSuffixCatching_def)
  show "\<not> IsLeaf t \<and> \<not> IsSuffixCatching t \<longrightarrow>
         PrefixPaths t =
           concat (map (\<lambda>(key, child). map (\<lambda>path. prefixOID t @ [key] @ path) (PrefixPaths child))
                     (children t))"
    by (subst PrefixPaths_unfold) simp
  show "\<forall>r \<in> set (PrefixPaths t). \<exists>n. lookup t r = Some n \<and> IsSuffixCatching n"
    using PrefixPaths_are_catchers [OF assms] by blast
  show "\<forall>A n. lookup t A = Some n \<and> IsSuffixCatching n \<longrightarrow>
          (\<forall>r \<in> set (PrefixPaths t). \<not> strict_prefix A r)"
    using PrefixPaths_not_below_catcher [OF assms] by blast
  show "\<forall>A n. lookup t A = Some n \<and> IsSuffixCatching n
           \<and> (\<forall>B m. strict_prefix B A \<and> lookup t B = Some m \<longrightarrow> \<not> IsLeaf m \<and> \<not> IsSuffixCatching m)
          \<longrightarrow> A \<in> set (PrefixPaths t)"
    using PrefixPaths_has_catcher [of t] by blast
  show "distinct (PrefixPaths t)" using assms by (rule PrefixPaths_distinct)
qed

theorem prefix_paths_stop_at_catchers_witness:
  "distinct_keys (OIDTree [1, 2] [(1, OIDTree [] [(2, OIDTree [] [] 0 ''Row.A'' LeafNode)] 0 ''.M'' SuffixCatcherNode),
                          (3, OIDTree [] [] 1 ''.X'' LeafNode)] (- 1) [] SimpleNode)
   \<and> PrefixPaths (OIDTree [1, 2] [(1, OIDTree [] [(2, OIDTree [] [] 0 ''Row.A'' LeafNode)] 0 ''.M'' SuffixCatcherNode),
                          (3, OIDTree [] [] 1 ''.X'' LeafNode)] (- 1) [] SimpleNode) = [[1, 2, 1]]
   \<and> lookup (OIDTree [1, 2] [(1, OIDTree [] [(2, OIDTree [] [] 0 ''Row.A'' LeafNode)] 0 ''.M'' SuffixCatcherNode),
                          (3, OIDTree [] [] 1 ''.X'' LeafNode)] (- 1) [] SimpleNode) [1, 2, 1]
       = Some (OIDTree [] [(2, OIDTree [] [] 0 ''Row.A'' LeafNode)] 0 ''.M'' SuffixCatcherNode)
   \<and> IsSuffixCatching (OIDTree [] [(2, OIDTree [] [] 0 ''Row.A'' LeafNode)] 0 ''.M'' SuffixCatcherNode)
   \<and> distinct (PrefixPaths (OIDTree [1, 2] [(1, OIDTree [] [(2, OIDTree [] [] 0 ''Row.A'' LeafNode)] 0 ''.M'' SuffixCatcherNode),
                          (3, OIDTree [] [] 1 ''.X'' LeafNode)] (- 1) [] SimpleNode))"
proof -
  let ?m = "OIDTree [] [(2, OIDTree [] [] 0 ''Row.A'' LeafNode)] 0 ''.M'' SuffixCatcherNode"
  let ?t = "OIDTree [1, 2] [(1, ?m), (3, OIDTree [] [] 1 ''.X'' LeafNode)] (- 1) [] SimpleNode"
  have d: "distinct_keys ?t" by simp
  have p: "PrefixPaths ?t = [[1, 2, 1]]" by (simp add: Copy_def)
  have l: "lookup ?t [1, 2, 1] = Some ?m"
    using lookup_child [of ?t 1 "[]"] lookup_self [of ?m] by simp
  have s: "IsSuffixCatching ?m" by (simp add: IsSuffixCatching_def)
  from prefix_paths_stop_at_catchers [OF d] have "distinct (PrefixPaths ?t)" by blast
  with d p l s show ?thesis by blast
qed

lemma distinct_keys_set_children:
  assumes "distinct (map fst cs)" "\<forall>(k, c) \<in> set cs. distinct_keys c"
  shows "distinct_keys (set_children t cs)"
  using assms by (simp add: set_children_def)

lemma distinct_keys_parts:
  "distinct_keys t \<Longrightarrow> distinct (map fst (children t)) \<and> (\<forall>(k, c) \<in> set (children t). distinct_keys c)"
  by (cases t) simp

lemma Insert_distinct_keys:
  "Insert t p fi fqn nt = Inr t' \<Longrightarrow> distinct_keys t \<Longrightarrow> distinct_keys t'"
proof (induction p arbitrary: t t' rule: length_induct)
  case (1 p)
  note parts = distinct_keys_parts [OF "1.prems"(2)]
  show ?case
  proof (cases "nodeType t = UninitializedNode")
    case True
    with "1.prems"(1) parts show ?thesis by (auto simp: Insert_uninit)
  next
    case init: False
    show ?thesis
    proof (cases p "prefixOID t" rule: paths_cases)
      case is_prefix
      with init "1.prems" show ?thesis by (simp add: Insert_prefix)
    next
      case (extends key childPath)
      have ins: "createOrUpdateChild t (key # childPath) fi fqn nt = Inr t'"
        using "1.prems"(1) Insert_extend [OF init extends] by simp
      from ins obtain c' where t': "t' = set_children t (AList.update key c' (children t))"
        and c': "case map_of (children t) key of
                   None \<Rightarrow> c' = OIDTree childPath [] fi fqn nt
                 | Some child \<Rightarrow> Insert child childPath fi fqn nt = Inr c'"
        by (auto simp: createOrUpdateChild_Cons split: sum.splits option.splits if_splits)
      have "distinct_keys c'"
      proof (cases "map_of (children t) key")
        case None
        with c' show ?thesis by simp
      next
        case (Some child)
        then have "(key, child) \<in> set (children t)" by (rule map_of_SomeD)
        with parts have "distinct_keys child" by auto
        moreover have "length childPath < length p" using extends by simp
        moreover have "Insert child childPath fi fqn nt = Inr c'" using c' Some by simp
        ultimately show ?thesis using "1.IH" by blast
      qed
      then have "\<forall>(k, c) \<in> set (AList.update key c' (children t)). distinct_keys c"
        using parts set_update_subset [of key c' "children t"] by auto
      moreover have "distinct (map fst (AList.update key c' (children t)))"
        using parts by (simp add: distinct_update)
      ultimately show ?thesis unfolding t' by (rule distinct_keys_set_children [rotated])
    next
      case (diverges common a ra b rb)
      then show ?thesis
        using "1.prems"(1) Insert_split [OF init diverges] parts by auto
    qed
  qed
qed

lemma InsertAll_distinct_keys:
  "InsertAll t es = Inr t' \<Longrightarrow> distinct_keys t \<Longrightarrow> distinct_keys t'"
proof (induction es arbitrary: t)
  case Nil
  then show ?case by simp
next
  case (Cons e es)
  obtain p fi fqn nt where e: "e = (p, fi, fqn, nt)" by (cases e) auto
  from Cons.prems(1) obtain t1 where "Insert t p fi fqn nt = Inr t1" "InsertAll t1 es = Inr t'"
    by (auto simp: e split: sum.splits)
  then show ?case using Cons.IH Insert_distinct_keys Cons.prems(2) by blast
qed

lemma insertion_order_leaves_last:
  "insertion_order ds es \<Longrightarrow> leaves_last ds \<Longrightarrow> leaves_last (ds @ es)"
proof (induction es arbitrary: ds)
  case Nil
  then show ?case by simp
next
  case (Cons e es)
  obtain p fi fqn nt where e: "e = (p, fi, fqn, nt)" by (cases e) auto
  from Cons.prems(1) have ok: "insertable ds (p, fi, fqn, nt)"
    and rest: "insertion_order (ds @ [e]) es" by (simp_all add: e)
  from ok have order: "\<And>q fi' fqn' nt'. (q, fi', fqn', nt') \<in> set ds \<Longrightarrow>
        \<not> prefix p q \<and> (nt' = LeafNode \<longrightarrow> \<not> prefix q p)"
    by (auto simp: insertable_def)
  have "leaves_last (ds @ [e])"
    unfolding leaves_last_def
  proof (intro allI impI)
    fix q a b q' a' b' c'
    assume h: "(q, a, b, LeafNode) \<in> set (ds @ [e]) \<and> (q', a', b', c') \<in> set (ds @ [e])"
    show "\<not> strict_prefix q q'"
    proof (cases "(q, a, b, LeafNode) \<in> set ds")
      case l: True
      show ?thesis
      proof (cases "(q', a', b', c') \<in> set ds")
        case True
        with l Cons.prems(2) show ?thesis unfolding leaves_last_def by blast
      next
        case False
        with h have "q' = p" by (simp add: e)
        with order [OF l] show ?thesis by (simp add: strict_prefix_def)
      qed
    next
      case False
      with h have qp: "q = p" by (simp add: e)
      show ?thesis
      proof (cases "(q', a', b', c') \<in> set ds")
        case True
        from order [OF this] qp show ?thesis by (simp add: strict_prefix_def)
      next
        case False
        with h have "q' = p" by (simp add: e)
        with qp show ?thesis by simp
      qed
    qed
  qed
  from Cons.IH [OF rest this] show ?case by simp
qed

lemma shortest_catcher:
  fixes es :: "entry list"
  assumes "(q, a, b, SuffixCatcherNode) \<in> set es" "prefix q p"
  shows "\<exists>q0 a0 b0. (q0, a0, b0, SuffixCatcherNode) \<in> set es \<and> prefix q0 p
           \<and> (\<forall>q' a' b'. (q', a', b', SuffixCatcherNode) \<in> set es \<and> prefix q' p \<longrightarrow> length q0 \<le> length q')"
proof -
  define S where "S = {e \<in> set es. snd (snd (snd e)) = SuffixCatcherNode \<and> prefix (fst e) p}"
  have "finite S" "S \<noteq> {}" using assms by (auto simp: S_def)
  then obtain e0 where e0: "e0 \<in> S" "\<forall>e \<in> S. length (fst e0) \<le> length (fst e)"
    using ex_min_if_finite [of "(\<lambda>e. length (fst e)) ` S"]
    by (metis (no_types, lifting) arg_min_if_finite(1) arg_min_least finite_imageI image_iff image_is_empty not_less)
  obtain q0 a0 b0 c0 where "e0 = (q0, a0, b0, c0)" by (cases e0) auto
  with e0 show ?thesis by (force simp: S_def)
qed

lemma two_leaves:
  "InsertAll NewOIDTree
          [([1, 3, 6, 1, 2, 1, 2, 2, 1], 0, ''.A'', LeafNode),
           ([1, 3, 6, 1, 2, 1, 31, 1, 1, 1], 1, ''.B'', LeafNode)]
     = Inr (OIDTree [1, 3, 6, 1, 2, 1]
             [(2, OIDTree [2, 1] [] 0 ''.A'' LeafNode), (31, OIDTree [1, 1, 1] [] 1 ''.B'' LeafNode)]
             (- 1) [] SimpleNode)"
proof -
  have 1: "Insert NewOIDTree [1, 3, 6, 1, 2, 1, 2, 2, 1] 0 ''.A'' LeafNode
             = Inr (OIDTree [1, 3, 6, 1, 2, 1, 2, 2, 1] [] 0 ''.A'' LeafNode)"
    by (simp add: Insert_uninit NewOIDTree_def)
  have 2: "Insert (OIDTree [1, 3, 6, 1, 2, 1, 2, 2, 1] [] 0 ''.A'' LeafNode)
             [1, 3, 6, 1, 2, 1, 31, 1, 1, 1] 1 ''.B'' LeafNode
           = Inr (OIDTree [1, 3, 6, 1, 2, 1]
             [(2, OIDTree [2, 1] [] 0 ''.A'' LeafNode), (31, OIDTree [1, 1, 1] [] 1 ''.B'' LeafNode)]
             (- 1) [] SimpleNode)"
    using Insert_split [of "OIDTree [1, 3, 6, 1, 2, 1, 2, 2, 1] [] 0 ''.A'' LeafNode"
        "[1, 3, 6, 1, 2, 1]" 2 "[2, 1]" "[1, 3, 6, 1, 2, 1, 31, 1, 1, 1]" 31 "[1, 1, 1]" 1 "''.B''" LeafNode]
    by simp
  show ?thesis by (simp only: InsertAll.simps 1 2 sum.case)
qed

lemma map_and_leaves:
  "InsertAll NewOIDTree
     [([1, 2], 0, ''.M'', SuffixCatcherNode), ([1, 2, 2], 0, ''Row.A'', LeafNode), ([1, 3], 1, ''.X'', LeafNode)]
     = Inr (OIDTree [1] [(2, OIDTree [] [(2, OIDTree [] [] 0 ''Row.A'' LeafNode)] 0 ''.M'' SuffixCatcherNode),
                        (3, OIDTree [] [] 1 ''.X'' LeafNode)] (- 1) [] SimpleNode)"
proof -
  have 1: "Insert NewOIDTree [1, 2] 0 ''.M'' SuffixCatcherNode
             = Inr (OIDTree [1, 2] [] 0 ''.M'' SuffixCatcherNode)"
    by (simp add: Insert_uninit NewOIDTree_def)
  have 2: "Insert (OIDTree [1, 2] [] 0 ''.M'' SuffixCatcherNode) [1, 2, 2] 0 ''Row.A'' LeafNode
             = Inr (OIDTree [1, 2] [(2, OIDTree [] [] 0 ''Row.A'' LeafNode)] 0 ''.M'' SuffixCatcherNode)"
    using Insert_extend [of "OIDTree [1, 2] [] 0 ''.M'' SuffixCatcherNode" "[1, 2, 2]" 2 "[]" 0 "''Row.A''" LeafNode]
    by (simp add: createOrUpdateChild_Cons IsLeaf_def set_children_def)
  have 3: "Insert (OIDTree [1, 2] [(2, OIDTree [] [] 0 ''Row.A'' LeafNode)] 0 ''.M'' SuffixCatcherNode)
              [1, 3] 1 ''.X'' LeafNode
             = Inr (OIDTree [1] [(2, OIDTree [] [(2, OIDTree [] [] 0 ''Row.A'' LeafNode)] 0 ''.M'' SuffixCatcherNode),
                        (3, OIDTree [] [] 1 ''.X'' LeafNode)] (- 1) [] SimpleNode)"
    using Insert_split [of "OIDTree [1, 2] [(2, OIDTree [] [] 0 ''Row.A'' LeafNode)] 0 ''.M'' SuffixCatcherNode"
        "[1]" 2 "[]" "[1, 3]" 3 "[]" 1 "''.X''" LeafNode]
    by simp
  show ?thesis by (simp only: InsertAll.simps 1 2 3 sum.case)
qed

lemma tree_of_entries_found:
  assumes "tree_of_entries t es" "(p, fi, fqn, nt) \<in> set es"
  shows "\<exists>n. lookup t p = Some n \<and> locator_kind n = (fi, fqn, nt)"
proof -
  from assms(2) have "es \<noteq> []" by auto
  with assms(1) have "\<forall>(p, fi, fqn, nt) \<in> set es.
              \<exists>n. lookup t p = Some n \<and> locator_kind n = (fi, fqn, nt)"
    by (simp add: tree_of_entries_def)
  with assms(2) show ?thesis by (auto simp only: Ball_def case_prod_conv)
qed

lemma tree_of_entries_origin:
  assumes "tree_of_entries t es" "es \<noteq> []" "lookup t A = Some n"
  shows "\<exists>q fi fqn nt. (q, fi, fqn, nt) \<in> set es
           \<and> ((A = q \<and> locator_kind n = (fi, fqn, nt))
                \<or> (locator_kind n = (- 1, [], SimpleNode) \<and> prefix A q))"
proof -
  from assms(1,2) have "\<forall>A n. lookup t A = Some n \<longrightarrow>
              (\<exists>(p, fi, fqn, nt) \<in> set es.
                 (A = p \<and> locator_kind n = (fi, fqn, nt))
                 \<or> (locator_kind n = (- 1, [], SimpleNode) \<and> prefix A p))"
    by (simp add: tree_of_entries_def)
  with assms(3) have "\<exists>(p, fi, fqn, nt) \<in> set es.
                 (A = p \<and> locator_kind n = (fi, fqn, nt))
                 \<or> (locator_kind n = (- 1, [], SimpleNode) \<and> prefix A p)"
    by blast
  then obtain e where e: "e \<in> set es" and c: "case e of (p, fi, fqn, nt) \<Rightarrow>
                 (A = p \<and> locator_kind n = (fi, fqn, nt))
                 \<or> (locator_kind n = (- 1, [], SimpleNode) \<and> prefix A p)"
    by (auto simp only: Bex_def)
  obtain q fi fqn nt where "e = (q, fi, fqn, nt)" by (cases e) auto
  with e c show ?thesis by (intro exI [of _ q] exI [of _ fi] exI [of _ fqn] exI [of _ nt]) simp
qed

lemma catcher_entry_covered:
  assumes inv: "tree_of_entries t es" and ll: "leaves_last es"
    and q: "(q, a, b, SuffixCatcherNode) \<in> set es" "prefix q p"
  shows "\<exists>r \<in> set (PrefixPaths t). prefix r p"
proof -
  from shortest_catcher [OF q] obtain q0 a0 b0
    where q0: "(q0, a0, b0, SuffixCatcherNode) \<in> set es" "prefix q0 p"
      and least: "\<And>q' a' b'. (q', a', b', SuffixCatcherNode) \<in> set es \<Longrightarrow> prefix q' p \<Longrightarrow>
                   length q0 \<le> length q'"
    by blast
  from q0(1) have ne: "es \<noteq> []" by auto
  from tree_of_entries_found [OF inv q0(1)] obtain n where n: "lookup t q0 = Some n"
    "locator_kind n = (a0, b0, SuffixCatcherNode)"
    by blast
  then have sc: "IsSuffixCatching n" by (simp add: locator_kind_def IsSuffixCatching_def)
  have "\<not> IsLeaf m \<and> \<not> IsSuffixCatching m" if B: "strict_prefix B q0" and m: "lookup t B = Some m" for B m
  proof -
    from tree_of_entries_origin [OF inv ne m] obtain d fi fqn nt
      where d: "(d, fi, fqn, nt) \<in> set es"
      and c: "(B = d \<and> locator_kind m = (fi, fqn, nt))
           \<or> (locator_kind m = (- 1, [], SimpleNode) \<and> prefix B d)"
      by blast
    from c show ?thesis
    proof
      assume e: "B = d \<and> locator_kind m = (fi, fqn, nt)"
      have "nt \<noteq> LeafNode"
      proof
        assume "nt = LeafNode"
        with d e q0(1) ll have "\<not> strict_prefix B q0" unfolding leaves_last_def by blast
        with B show False by simp
      qed
      moreover have "nt \<noteq> SuffixCatcherNode"
      proof
        assume "nt = SuffixCatcherNode"
        moreover have "prefix B p" using B q0(2) by (auto simp: strict_prefix_def prefix_def)
        ultimately have "length q0 \<le> length B" using least d e by blast
        with B show False by (auto simp: strict_prefix_def prefix_def)
      qed
      ultimately show ?thesis using e by (simp add: locator_kind_def IsLeaf_def IsSuffixCatching_def)
    next
      assume "locator_kind m = (- 1, [], SimpleNode) \<and> prefix B d"
      then show ?thesis by (simp add: locator_kind_def IsLeaf_def IsSuffixCatching_def)
    qed
  qed
  with n(1) sc have "q0 \<in> set (PrefixPaths t)" by (rule PrefixPaths_has_catcher) 
  with q0(2) show ?thesis by blast
qed

lemma covered_has_catcher_entry:
  assumes inv: "tree_of_entries t es" and ne: "es \<noteq> []" and dk: "distinct_keys t"
    and r: "r \<in> set (PrefixPaths t)"
  shows "\<exists>a b. (r, a, b, SuffixCatcherNode) \<in> set es"
proof -
  from PrefixPaths_are_catchers [OF dk r] obtain n where n: "lookup t r = Some n"
    and sc: "IsSuffixCatching n" by blast
  from tree_of_entries_origin [OF inv ne n] obtain d fi fqn nt
    where d: "(d, fi, fqn, nt) \<in> set es"
    and c: "(r = d \<and> locator_kind n = (fi, fqn, nt))
         \<or> (locator_kind n = (- 1, [], SimpleNode) \<and> prefix r d)"
    by blast
  from c sc have "r = d \<and> nt = SuffixCatcherNode"
    by (auto simp: locator_kind_def IsSuffixCatching_def)
  with d show ?thesis by blast
qed

lemma NewOIDTree_distinct_keys: "distinct_keys NewOIDTree"
  by (simp add: NewOIDTree_def)

text \<open>
  Claim C2, as \<open>PrefixPaths\<close> implements it. For a tree built by inserting entries in an
  accepted order and every inserted path \<open>p\<close>: some returned path is a prefix of \<open>p\<close>
  exactly when \<open>p\<close> is the path of a suffix-catcher entry or extends one. Leaves outside
  every suffix-catcher are covered by no path: after inserting the two leaves
  \<open>.1.3.6.1.2.1.2.2.1\<close> and \<open>.1.3.6.1.2.1.31.1.1.1\<close>, \<open>PrefixPaths\<close> returns
  nothing, while the walks along both paths succeed.
\<close>

theorem prefix_paths_cover_catchers:
  "(\<forall>es p fi fqn nt. insertion_order [] es \<and> (p, fi, fqn, nt) \<in> set es \<longrightarrow>
      (\<exists>t. InsertAll NewOIDTree es = Inr t
         \<and> ((\<exists>r \<in> set (PrefixPaths t). prefix r p)
              \<longleftrightarrow> (\<exists>q a b. (q, a, b, SuffixCatcherNode) \<in> set es \<and> prefix q p))))
   \<and> (\<exists>t n1 n2. InsertAll NewOIDTree
          [([1, 3, 6, 1, 2, 1, 2, 2, 1], 0, ''.A'', LeafNode),
           ([1, 3, 6, 1, 2, 1, 31, 1, 1, 1], 1, ''.B'', LeafNode)] = Inr t
        \<and> PrefixPaths t = []
        \<and> walk t [1, 3, 6, 1, 2, 1, 2, 2, 1] = (Some n1, [])
        \<and> walk t [1, 3, 6, 1, 2, 1, 31, 1, 1, 1] = (Some n2, []))"
proof (intro conjI allI impI)
  fix es :: "entry list" and p fi fqn nt
  assume h: "insertion_order [] es \<and> (p, fi, fqn, nt) \<in> set es"
  then have ne: "es \<noteq> []" by auto
  from h InsertAll_fresh obtain t where t: "InsertAll NewOIDTree es = Inr t"
    and inv: "tree_of_entries t es" by blast
  have dk: "distinct_keys t"
    using InsertAll_distinct_keys [OF t NewOIDTree_distinct_keys] .
  have ll: "leaves_last es"
    using insertion_order_leaves_last [of "[]" es] h by (simp add: leaves_last_def)
  have "(\<exists>r \<in> set (PrefixPaths t). prefix r p)
          \<longleftrightarrow> (\<exists>q a b. (q, a, b, SuffixCatcherNode) \<in> set es \<and> prefix q p)"
    using catcher_entry_covered [OF inv ll] covered_has_catcher_entry [OF inv ne dk] by blast
  with t show "\<exists>t. InsertAll NewOIDTree es = Inr t
         \<and> ((\<exists>r \<in> set (PrefixPaths t). prefix r p)
              \<longleftrightarrow> (\<exists>q a b. (q, a, b, SuffixCatcherNode) \<in> set es \<and> prefix q p))"
    by blast
next
  let ?a = "OIDTree [2, 1] [] 0 ''.A'' LeafNode"
  let ?b = "OIDTree [1, 1, 1] [] 1 ''.B'' LeafNode"
  let ?t = "OIDTree [1, 3, 6, 1, 2, 1] [(2, ?a), (31, ?b)] (- 1) [] SimpleNode"
  have i: "InsertAll NewOIDTree
          [([1, 3, 6, 1, 2, 1, 2, 2, 1], 0, ''.A'', LeafNode),
           ([1, 3, 6, 1, 2, 1, 31, 1, 1, 1], 1, ''.B'', LeafNode)] = Inr ?t"
    by (rule two_leaves)
  have p: "PrefixPaths ?t = []" by simp
  have "lookup ?t ([1, 3, 6, 1, 2, 1] @ 2 # [2, 1]) = Some ?a"
    using lookup_child [of ?t 2 "[2, 1]"] by simp
  then have w1: "walk ?t [1, 3, 6, 1, 2, 1, 2, 2, 1] = (Some ?a, [])" by (simp add: lookup_walk)
  have "lookup ?t ([1, 3, 6, 1, 2, 1] @ 31 # [1, 1, 1]) = Some ?b"
    using lookup_child [of ?t 31 "[1, 1, 1]"] by simp
  then have w2: "walk ?t [1, 3, 6, 1, 2, 1, 31, 1, 1, 1] = (Some ?b, [])" by (simp add: lookup_walk)
  from i p w1 w2 show "\<exists>t n1 n2. InsertAll NewOIDTree
          [([1, 3, 6, 1, 2, 1, 2, 2, 1], 0, ''.A'', LeafNode),
           ([1, 3, 6, 1, 2, 1, 31, 1, 1, 1], 1, ''.B'', LeafNode)] = Inr t
        \<and> PrefixPaths t = []
        \<and> walk t [1, 3, 6, 1, 2, 1, 2, 2, 1] = (Some n1, [])
        \<and> walk t [1, 3, 6, 1, 2, 1, 31, 1, 1, 1] = (Some n2, [])"
    by blast
qed

theorem prefix_paths_cover_catchers_witness:
  "insertion_order []
     [([1, 2], 0, ''.M'', SuffixCatcherNode), ([1, 2, 2], 0, ''Row.A'', LeafNode), ([1, 3], 1, ''.X'', LeafNode)]
   \<and> InsertAll NewOIDTree
     [([1, 2], 0, ''.M'', SuffixCatcherNode), ([1, 2, 2], 0, ''Row.A'', LeafNode), ([1, 3], 1, ''.X'', LeafNode)]
     = Inr (OIDTree [1] [(2, OIDTree [] [(2, OIDTree [] [] 0 ''Row.A'' LeafNode)] 0 ''.M'' SuffixCatcherNode),
                        (3, OIDTree [] [] 1 ''.X'' LeafNode)] (- 1) [] SimpleNode)
   \<and> PrefixPaths (OIDTree [1] [(2, OIDTree [] [(2, OIDTree [] [] 0 ''Row.A'' LeafNode)] 0 ''.M'' SuffixCatcherNode),
                        (3, OIDTree [] [] 1 ''.X'' LeafNode)] (- 1) [] SimpleNode) = [[1, 2]]
   \<and> prefix [1, 2] [1, 2, 2]"
proof -
  let ?es = "[([1, 2], 0, ''.M'', SuffixCatcherNode), ([1, 2, 2], 0, ''Row.A'', LeafNode),
              ([1, 3], 1, ''.X'', LeafNode)] :: entry list"
  let ?t = "OIDTree [1] [(2, OIDTree [] [(2, OIDTree [] [] 0 ''Row.A'' LeafNode)] 0 ''.M'' SuffixCatcherNode),
                        (3, OIDTree [] [] 1 ''.X'' LeafNode)] (- 1) [] SimpleNode"
  have o: "insertion_order [] ?es" by (simp add: insertable_def)
  have i: "InsertAll NewOIDTree ?es = Inr ?t"
    by (rule map_and_leaves)
  have p: "PrefixPaths ?t = [[1, 2]]" by (simp add: Copy_def)
  have m: "([1, 2, 2], 0, ''Row.A'', LeafNode) \<in> set ?es" by simp
  from prefix_paths_cover_catchers
  have g: "insertion_order [] es \<and> (p, fi, fqn, nt) \<in> set es \<Longrightarrow>
      \<exists>t. InsertAll NewOIDTree es = Inr t
         \<and> ((\<exists>r \<in> set (PrefixPaths t). prefix r p)
              \<longleftrightarrow> (\<exists>q a b. (q, a, b, SuffixCatcherNode) \<in> set es \<and> prefix q p))"
    for es p fi fqn nt by blast
  from g [of ?es "[1, 2, 2]" 0 "''Row.A''" LeafNode] o m obtain t
    where t: "InsertAll NewOIDTree ?es = Inr t"
      and c: "(\<exists>r \<in> set (PrefixPaths t). prefix r [1, 2, 2])
          \<longleftrightarrow> (\<exists>q a b. (q, a, b, SuffixCatcherNode) \<in> set ?es \<and> prefix q [1, 2, 2])"
    by blast
  from t i have "t = ?t" by simp
  with c p have "prefix [1, 2] [1, 2, 2]" by simp
  with o i p show ?thesis by blast
qed

text \<open>The two leaves of the scenario: the tree has both, and \<open>PrefixPaths\<close> is empty.\<close>

theorem prefix_paths_cover_counterexample:
  "InsertAll NewOIDTree
          [([1, 3, 6, 1, 2, 1, 2, 2, 1], 0, ''.A'', LeafNode),
           ([1, 3, 6, 1, 2, 1, 31, 1, 1, 1], 1, ''.B'', LeafNode)]
     = Inr (OIDTree [1, 3, 6, 1, 2, 1]
             [(2, OIDTree [2, 1] [] 0 ''.A'' LeafNode), (31, OIDTree [1, 1, 1] [] 1 ''.B'' LeafNode)]
             (- 1) [] SimpleNode)
   \<and> PrefixPaths (OIDTree [1, 3, 6, 1, 2, 1]
             [(2, OIDTree [2, 1] [] 0 ''.A'' LeafNode), (31, OIDTree [1, 1, 1] [] 1 ''.B'' LeafNode)]
             (- 1) [] SimpleNode) = []"
  using two_leaves by simp

lemma childless_leaves_parts:
  "childless_leaves t \<Longrightarrow>
   (nodeType t = LeafNode \<or> nodeType t = UninitializedNode \<longrightarrow> children t = [])
   \<and> (\<forall>(k, c) \<in> set (children t). childless_leaves c)"
  by (cases t) simp

lemma childless_leaves_set_children:
  assumes "nodeType t \<noteq> LeafNode" "nodeType t \<noteq> UninitializedNode"
    "\<forall>(k, c) \<in> set cs. childless_leaves c"
  shows "childless_leaves (set_children t cs)"
  using assms by (simp add: set_children_def)

lemma Insert_childless_leaves:
  "Insert t p fi fqn nt = Inr t' \<Longrightarrow> childless_leaves t \<Longrightarrow> childless_leaves t'"
proof (induction p arbitrary: t t' rule: length_induct)
  case (1 p)
  note parts = childless_leaves_parts [OF "1.prems"(2)]
  show ?case
  proof (cases "nodeType t = UninitializedNode")
    case True
    with "1.prems"(1) parts show ?thesis by (auto simp: Insert_uninit)
  next
    case init: False
    show ?thesis
    proof (cases p "prefixOID t" rule: paths_cases)
      case is_prefix
      with init "1.prems" show ?thesis by (simp add: Insert_prefix)
    next
      case (extends key childPath)
      have ins: "createOrUpdateChild t (key # childPath) fi fqn nt = Inr t'"
        using "1.prems"(1) Insert_extend [OF init extends] by simp
      from ins obtain c' where t': "t' = set_children t (AList.update key c' (children t))"
        and c': "case map_of (children t) key of
                   None \<Rightarrow> c' = OIDTree childPath [] fi fqn nt \<and> \<not> IsLeaf t
                 | Some child \<Rightarrow> Insert child childPath fi fqn nt = Inr c'"
        by (auto simp: createOrUpdateChild_Cons split: sum.splits option.splits if_splits)
      have nl: "nodeType t \<noteq> LeafNode"
      proof (cases "map_of (children t) key")
        case None
        with c' show ?thesis by (simp add: IsLeaf_def)
      next
        case (Some child)
        then have "children t \<noteq> []" by auto
        with parts show ?thesis by auto
      qed
      have "childless_leaves c'"
      proof (cases "map_of (children t) key")
        case None
        with c' show ?thesis by simp
      next
        case (Some child)
        then have "(key, child) \<in> set (children t)" by (rule map_of_SomeD)
        with parts have "childless_leaves child" by auto
        moreover have "length childPath < length p" using extends by simp
        moreover have "Insert child childPath fi fqn nt = Inr c'" using c' Some by simp
        ultimately show ?thesis using "1.IH" by blast
      qed
      then have "\<forall>(k, c) \<in> set (AList.update key c' (children t)). childless_leaves c"
        using parts set_update_subset [of key c' "children t"] by auto
      with nl init show ?thesis unfolding t' by (rule childless_leaves_set_children)
    next
      case (diverges common a ra b rb)
      then show ?thesis
        using "1.prems"(1) Insert_split [OF init diverges] parts init by auto
    qed
  qed
qed

text \<open>Inserting a path that extends the path of a leaf panics below that leaf.\<close>

lemma Insert_under_leaf:
  "init_tree t \<Longrightarrow> childless_leaves t \<Longrightarrow> lookup t q = Some n \<Longrightarrow>
   nodeType n = LeafNode \<Longrightarrow> strict_prefix q p \<Longrightarrow>
   Insert t p fi fqn nt = Inl InsertUnderLeaf"
proof (induction p arbitrary: t q rule: length_induct)
  case (1 p)
  have init: "nodeType t \<noteq> UninitializedNode" using "1.prems"(1) by (rule init_tree_nodeType)
  note parts = childless_leaves_parts [OF "1.prems"(2)]
  from "1.prems"(3) have pq: "prefix (prefixOID t) q"
    by (cases rule: lookup_SomeD) auto
  with "1.prems"(5) have pp: "strict_prefix (prefixOID t) p \<or> prefixOID t = q"
    by (auto simp: strict_prefix_def prefix_def)
  show ?case
  proof (cases p "prefixOID t" rule: paths_cases)
    case is_prefix
    with pq "1.prems"(5) show ?thesis
      by (auto simp: strict_prefix_def prefix_def)
  next
    case (extends key childPath)
    note ext = Insert_extend [OF init extends, of fi fqn nt]
    from "1.prems"(3) show ?thesis
    proof (cases rule: lookup_SomeD)
      case here
      with "1.prems"(4) have "nodeType t = LeafNode" by simp
      with parts have "map_of (children t) key = None" "IsLeaf t" by (auto simp: IsLeaf_def)
      then show ?thesis using ext by (simp add: createOrUpdateChild_Cons)
    next
      case (below k r c)
      from "1.prems"(5) below(1) extends have k: "k = key" and r: "strict_prefix r childPath"
        by (auto simp: strict_prefix_def)
      have "init_tree c" using "1.prems"(1) below(2) by (rule init_tree_child)
      moreover have "childless_leaves c"
        using parts map_of_SomeD [OF below(2)] by auto
      moreover have "length childPath < length p" using extends by simp
      ultimately have "Insert c childPath fi fqn nt = Inl InsertUnderLeaf"
        using "1.IH" below(3) "1.prems"(4) r by blast
      then show ?thesis using ext below(2) k by (simp add: createOrUpdateChild_Cons)
    qed
  next
    case (diverges common a ra b rb)
    with pq "1.prems"(5) show ?thesis
      by (auto simp: strict_prefix_def prefix_def)
  qed
qed

lemma InsertAll_childless_leaves:
  "InsertAll t es = Inr t' \<Longrightarrow> childless_leaves t \<Longrightarrow> childless_leaves t'"
proof (induction es arbitrary: t)
  case Nil
  then show ?case by simp
next
  case (Cons e es)
  obtain p fi fqn nt where e: "e = (p, fi, fqn, nt)" by (cases e) auto
  from Cons.prems(1) obtain t1 where "Insert t p fi fqn nt = Inr t1" "InsertAll t1 es = Inr t'"
    by (auto simp: e split: sum.splits)
  then show ?case using Cons.IH Insert_childless_leaves Cons.prems(2) by blast
qed

lemma InsertAll_append:
  "InsertAll t (xs @ ys) = (case InsertAll t xs of Inl e \<Rightarrow> Inl e | Inr t' \<Rightarrow> InsertAll t' ys)"
proof (induction xs arbitrary: t)
  case Nil
  then show ?case by simp
next
  case (Cons x xs)
  obtain p fi fqn nt where "x = (p, fi, fqn, nt)" by (cases x) auto
  then show ?case using Cons.IH by (simp split: sum.splits)
qed

text \<open>
  Claim C1, as the tree implements it. An order of insertion is accepted when no entry's
  path is a prefix of (or equal to) the path of an entry inserted before it, and no entry's
  path extends the path of a leaf inserted before it. Inserting entries into a fresh tree in
  an accepted order never panics, and for every entry the walk along its path through
  \<open>FindNext\<close> ends at a node with the entry's locator and kind, with an empty remainder.
  Inserting, after entries in an accepted order, an entry whose path extends the path of a
  leaf among them panics: nothing is inserted under a leaf.
\<close>

theorem insert_then_walk:
  "(insertion_order [] es \<longrightarrow>
      (\<exists>t. InsertAll NewOIDTree es = Inr t
         \<and> (\<forall>(p, fi, fqn, nt) \<in> set es.
               \<exists>n. walk t p = (Some n, [])
                 \<and> fieldIndex n = fi \<and> fieldQualifiedName n = fqn \<and> nodeType n = nt)))
   \<and> (insertion_order [] es \<and> (q, a, b, LeafNode) \<in> set es \<and> strict_prefix q p' \<longrightarrow>
        InsertAll NewOIDTree (es @ [(p', fi', fqn', nt')]) = Inl InsertUnderLeaf)"
proof (intro conjI impI)
  assume o: "insertion_order [] es"
  from InsertAll_fresh [OF o] obtain t where t: "InsertAll NewOIDTree es = Inr t"
    and inv: "tree_of_entries t es" by blast
  have "\<exists>n. walk t p = (Some n, [])
                 \<and> fieldIndex n = fi \<and> fieldQualifiedName n = fqn \<and> nodeType n = nt"
    if "(p, fi, fqn, nt) \<in> set es" for p fi fqn nt
    using tree_of_entries_found [OF inv that] by (auto simp: lookup_walk locator_kind_def)
  with t show "\<exists>t. InsertAll NewOIDTree es = Inr t
         \<and> (\<forall>(p, fi, fqn, nt) \<in> set es.
               \<exists>n. walk t p = (Some n, [])
                 \<and> fieldIndex n = fi \<and> fieldQualifiedName n = fqn \<and> nodeType n = nt)"
    by auto
next
  assume h: "insertion_order [] es \<and> (q, a, b, LeafNode) \<in> set es \<and> strict_prefix q p'"
  then have ne: "es \<noteq> []" by auto
  from h InsertAll_fresh obtain t where t: "InsertAll NewOIDTree es = Inr t"
    and inv: "tree_of_entries t es" by blast
  from inv ne have init: "init_tree t" by (simp add: tree_of_entries_def)
  have "childless_leaves NewOIDTree" by (simp add: NewOIDTree_def)
  with t have cl: "childless_leaves t" by (rule InsertAll_childless_leaves)
  from h tree_of_entries_found [OF inv] obtain n where n: "lookup t q = Some n"
    "locator_kind n = (a, b, LeafNode)" by blast
  then have "nodeType n = LeafNode" by (simp add: locator_kind_def)
  with h have "Insert t p' fi' fqn' nt' = Inl InsertUnderLeaf"
    using Insert_under_leaf [OF init cl n(1)] by blast
  with t show "InsertAll NewOIDTree (es @ [(p', fi', fqn', nt')]) = Inl InsertUnderLeaf"
    by (simp add: InsertAll_append)
qed

theorem insert_then_walk_witness:
  "insertion_order []
     [([1, 2], 0, ''.M'', SuffixCatcherNode), ([1, 2, 2], 0, ''Row.A'', LeafNode), ([1, 3], 1, ''.X'', LeafNode)]
   \<and> InsertAll NewOIDTree
       [([1, 2], 0, ''.M'', SuffixCatcherNode), ([1, 2, 2], 0, ''Row.A'', LeafNode), ([1, 3], 1, ''.X'', LeafNode)]
      = Inr (OIDTree [1] [(2, OIDTree [] [(2, OIDTree [] [] 0 ''Row.A'' LeafNode)] 0 ''.M'' SuffixCatcherNode),
                        (3, OIDTree [] [] 1 ''.X'' LeafNode)] (- 1) [] SimpleNode)
   \<and> (\<exists>n. walk (OIDTree [1] [(2, OIDTree [] [(2, OIDTree [] [] 0 ''Row.A'' LeafNode)] 0 ''.M'' SuffixCatcherNode),
                        (3, OIDTree [] [] 1 ''.X'' LeafNode)] (- 1) [] SimpleNode) [1, 2, 2] = (Some n, [])
         \<and> fieldIndex n = 0 \<and> fieldQualifiedName n = ''Row.A'' \<and> nodeType n = LeafNode)
   \<and> strict_prefix [1, 3] [1, 3, 5 :: nat]
   \<and> InsertAll NewOIDTree
       ([([1, 2], 0, ''.M'', SuffixCatcherNode), ([1, 2, 2], 0, ''Row.A'', LeafNode), ([1, 3], 1, ''.X'', LeafNode)]
        @ [([1, 3, 5], 2, ''.Y'', LeafNode)]) = Inl InsertUnderLeaf"
proof -
  let ?es = "[([1, 2], 0, ''.M'', SuffixCatcherNode), ([1, 2, 2], 0, ''Row.A'', LeafNode),
              ([1, 3], 1, ''.X'', LeafNode)] :: entry list"
  let ?t = "OIDTree [1] [(2, OIDTree [] [(2, OIDTree [] [] 0 ''Row.A'' LeafNode)] 0 ''.M'' SuffixCatcherNode),
                        (3, OIDTree [] [] 1 ''.X'' LeafNode)] (- 1) [] SimpleNode"
  have o: "insertion_order [] ?es" by (simp add: insertable_def)
  have i: "InsertAll NewOIDTree ?es = Inr ?t" by (rule map_and_leaves)
  have m: "([1, 2, 2], 0, ''Row.A'', LeafNode) \<in> set ?es" by simp
  from insert_then_walk [of ?es] o obtain t where t: "InsertAll NewOIDTree ?es = Inr t"
    and a: "\<forall>(p, fi, fqn, nt) \<in> set ?es.
               \<exists>n. walk t p = (Some n, [])
                 \<and> fieldIndex n = fi \<and> fieldQualifiedName n = fqn \<and> nodeType n = nt"
    by blast
  from t i have "t = ?t" by simp
  with a m have w: "\<exists>n. walk ?t [1, 2, 2] = (Some n, [])
         \<and> fieldIndex n = 0 \<and> fieldQualifiedName n = ''Row.A'' \<and> nodeType n = LeafNode"
    by (auto simp only: Ball_def case_prod_conv)
  have l: "([1, 3], 1, ''.X'', LeafNode) \<in> set ?es" by simp
  have s: "strict_prefix [1, 3] [1, 3, 5 :: nat]" by (simp add: strict_prefix_def)
  from insert_then_walk [of ?es "[1, 3]" 1 "''.X''" "[1, 3, 5]" 2 "''.Y''" LeafNode] o l s
  have p: "InsertAll NewOIDTree (?es @ [([1, 3, 5], 2, ''.Y'', LeafNode)]) = Inl InsertUnderLeaf"
    by blast
  from o i w s p show ?thesis by blast
qed

text \<open>
  A leaf, and then an entry at a path that extends the leaf's: the second insertion panics
  below the leaf.
\<close>

theorem insert_any_order_counterexample:
  "InsertAll NewOIDTree [([1], 0, ''.A'', LeafNode), ([1, 2], 1, ''.B'', LeafNode)] = Inl InsertUnderLeaf"
  by (simp add: NewOIDTree_def Insert.simps createOrUpdateChild.simps Let_def Copy_def IsLeaf_def)

lemma set_at_get_at:
  "get_at dest loc = Some v \<Longrightarrow> \<exists>dest'. set_at dest loc nv = Some dest' \<and> get_at dest' loc = Some nv"
proof (induction dest loc nv rule: set_at.induct)
  case (4 m k ss nv)
  then show ?case by (auto simp: update_conv' split: option.splits)
qed (auto split: if_splits)

lemma SetValue_settable:
  assumes "get_at dest loc = Some v"
  shows "\<exists>dest'. SetValue dest (RValue t loc True) nv = Inr dest'
           \<and> set_at dest loc nv = Some dest' \<and> get_at dest' loc = Some nv"
  using set_at_get_at [OF assms, of nv] by (auto simp: SetValue_def)

text \<open>
  Claim C7. A PDU with tag Integer, or with one of the unsigned tags Counter32, Counter64,
  Gauge32, TimeTicks, Uinteger32, coerced into a boolean field that can be set: payload 1
  sets the field to true, payload 2 sets it to false, and any other payload panics.
\<close>

theorem boolean_coercion:
  assumes field: "get_at dest loc = Some (VBool b)"
    and pdu: "Type pdu = Integer \<and> Value pdu \<in> {Int64Val x, IntVal x}
       \<or> Type pdu \<in> {Counter32, Counter64, Gauge32, TimeTicks, Uinteger32}
           \<and> Value pdu \<in> {Uint64Val (nat x), UintVal (nat x)} \<and> 0 \<le> x"
  shows "(x = 1 \<longrightarrow> (\<exists>dest'. deserializePDUToValue pdu dest (RValue TBool loc True) fieldName = Inr (dest', [])
                       \<and> set_at dest loc (VBool True) = Some dest' \<and> get_at dest' loc = Some (VBool True)))
       \<and> (x = 2 \<longrightarrow> (\<exists>dest'. deserializePDUToValue pdu dest (RValue TBool loc True) fieldName = Inr (dest', [])
                       \<and> set_at dest loc (VBool False) = Some dest' \<and> get_at dest' loc = Some (VBool False)))
       \<and> (x \<noteq> 1 \<and> x \<noteq> 2 \<longrightarrow>
            deserializePDUToValue pdu dest (RValue TBool loc True) fieldName = Inl CannotConvertToBool)"
proof -
  from SetValue_settable [OF field, of TBool "VBool True"] obtain d1
    where d1: "SetValue dest (RValue TBool loc True) (VBool True) = Inr d1"
      "set_at dest loc (VBool True) = Some d1" "get_at d1 loc = Some (VBool True)" by blast
  from SetValue_settable [OF field, of TBool "VBool False"] obtain d2
    where d2: "SetValue dest (RValue TBool loc True) (VBool False) = Inr d2"
      "set_at dest loc (VBool False) = Some d2" "get_at d2 loc = Some (VBool False)" by blast
  from pdu show ?thesis
  proof
    assume "Type pdu = Integer \<and> Value pdu \<in> {Int64Val x, IntVal x}"
    then show ?thesis using d1 d2
      by (auto simp: deserializePDUToValue_def Kind_of_Value_def done_quietly_def)
  next
    assume u: "Type pdu \<in> {Counter32, Counter64, Gauge32, TimeTicks, Uinteger32}
           \<and> Value pdu \<in> {Uint64Val (nat x), UintVal (nat x)} \<and> 0 \<le> x"
    then have n: "nat x = 1 \<longleftrightarrow> x = 1" "nat x = 2 \<longleftrightarrow> x = 2" by auto
    have t: "Type pdu \<noteq> Integer" using u by auto
    from u have "Value pdu = Uint64Val (nat x) \<or> Value pdu = UintVal (nat x)" by simp
    then show ?thesis using d1 d2 u t n
      by (auto simp: deserializePDUToValue_def Kind_of_Value_def done_quietly_def)
  qed
qed

theorem boolean_coercion_witness:
  "deserializePDUToValue \<lparr>Name = ''.'', Type = Integer, Value = IntVal 1\<rparr>
      (VPtr (Some (VStruct [VBool False]))) (RValue TBool [Deref, FieldAt 0] True) ''Rec.Flag''
     = Inr (VPtr (Some (VStruct [VBool True])), [])
   \<and> deserializePDUToValue \<lparr>Name = ''.'', Type = Integer, Value = IntVal 2\<rparr>
      (VPtr (Some (VStruct [VBool True]))) (RValue TBool [Deref, FieldAt 0] True) ''Rec.Flag''
     = Inr (VPtr (Some (VStruct [VBool False])), [])
   \<and> deserializePDUToValue \<lparr>Name = ''.'', Type = Integer, Value = IntVal 3\<rparr>
      (VPtr (Some (VStruct [VBool False]))) (RValue TBool [Deref, FieldAt 0] True) ''Rec.Flag''
     = Inl CannotConvertToBool"
proof -
  have g1: "get_at (VPtr (Some (VStruct [VBool False]))) [Deref, FieldAt 0] = Some (VBool False)"
    by simp
  have g2: "get_at (VPtr (Some (VStruct [VBool True]))) [Deref, FieldAt 0] = Some (VBool True)"
    by simp
  have 1: "deserializePDUToValue \<lparr>Name = ''.'', Type = Integer, Value = IntVal 1\<rparr>
      (VPtr (Some (VStruct [VBool False]))) (RValue TBool [Deref, FieldAt 0] True) ''Rec.Flag''
     = Inr (VPtr (Some (VStruct [VBool True])), [])"
    using boolean_coercion [OF g1, of "\<lparr>Name = ''.'', Type = Integer, Value = IntVal 1\<rparr>" 1 "''Rec.Flag''"]
    by simp
  have 2: "deserializePDUToValue \<lparr>Name = ''.'', Type = Integer, Value = IntVal 2\<rparr>
      (VPtr (Some (VStruct [VBool True]))) (RValue TBool [Deref, FieldAt 0] True) ''Rec.Flag''
     = Inr (VPtr (Some (VStruct [VBool False])), [])"
    using boolean_coercion [OF g2, of "\<lparr>Name = ''.'', Type = Integer, Value = IntVal 2\<rparr>" 2 "''Rec.Flag''"]
    by simp
  have 3: "deserializePDUToValue \<lparr>Name = ''.'', Type = Integer, Value = IntVal 3\<rparr>
      (VPtr (Some (VStruct [VBool False]))) (RValue TBool [Deref, FieldAt 0] True) ''Rec.Flag''
     = Inl CannotConvertToBool"
    using boolean_coercion [OF g1, of "\<lparr>Name = ''.'', Type = Integer, Value = IntVal 3\<rparr>" 3 "''Rec.Flag''"]
    by simp
  from 1 2 3 show ?thesis by blast
qed

lemma not_accepts_Integer:
  assumes "Type pdu = Integer" "payload_fits pdu" "\<not> spec_accepts (Type pdu) t"
  shows "\<exists>entry. deserializePDUToValue pdu dest (RValue t loc canSet) fieldName = Inr (dest, [entry])"
proof -
  from assms(1,2) obtain i where "Value pdu = Int64Val i \<or> Value pdu = IntVal i"
    by (auto simp: payload_fits_def split: PduValue.splits)
  moreover from assms(1,3) have "kind_of t \<notin> {KInt, KInt8, KInt16, KInt32, KInt64, KBool}"
    by (simp add: spec_accepts_def)
  ultimately show ?thesis using assms(1)
    by (auto simp: deserializePDUToValue_def Kind_of_Value_def)
qed

lemma not_accepts_unsigned:
  assumes "Type pdu \<in> {Counter32, Counter64, Gauge32, TimeTicks, Uinteger32}"
    "payload_fits pdu" "\<not> spec_accepts (Type pdu) t"
  shows "\<exists>entry. deserializePDUToValue pdu dest (RValue t loc canSet) fieldName = Inr (dest, [entry])"
proof -
  from assms(1) have ni: "Type pdu \<noteq> Integer" by auto
  with assms(1,2) obtain u where "Value pdu = Uint64Val u \<or> Value pdu = UintVal u"
    by (auto simp: payload_fits_def split: PduValue.splits)
  moreover from assms(1,3) ni have "kind_of t \<notin> {KUint, KUint8, KUint16, KUint32, KUint64, KBool}"
    by (simp add: spec_accepts_def)
  ultimately show ?thesis using assms(1) ni
    by (auto simp: deserializePDUToValue_def Kind_of_Value_def)
qed

lemma not_accepts_OctetString:
  assumes "Type pdu = OctetString" "payload_fits pdu" "\<not> spec_accepts (Type pdu) t"
    "kind_of t \<noteq> KSlice"
  shows "\<exists>entry. deserializePDUToValue pdu dest (RValue t loc canSet) fieldName = Inr (dest, [entry])"
proof -
  from assms(1,2) obtain b where "Value pdu = BytesVal b"
    by (auto simp: payload_fits_def split: PduValue.splits)
  moreover from assms(1,3) have "kind_of t \<noteq> KString" by (simp add: spec_accepts_def)
  ultimately show ?thesis using assms(1,4)
    by (simp add: deserializePDUToValue_def Kind_of_Value_def)
qed

lemma not_accepts_ObjectIdentifier:
  assumes "Type pdu = ObjectIdentifier" "\<not> spec_accepts (Type pdu) t"
  shows "\<exists>entry. deserializePDUToValue pdu dest (RValue t loc canSet) fieldName = Inr (dest, [entry])"
proof -
  from assms have "kind_of t \<noteq> KString" "t \<noteq> TOID" by (simp_all add: spec_accepts_def)
  then show ?thesis using assms(1)
    by (simp add: deserializePDUToValue_def Kind_of_Value_def Type_of_Value_def)
qed

lemma not_accepts_OtherTag:
  assumes "Type pdu = OtherTag"
  shows "\<exists>entry. deserializePDUToValue pdu dest (RValue t loc canSet) fieldName = Inr (dest, [entry])"
  using assms by (simp add: deserializePDUToValue_def)

text \<open>
  Claim C5, as the coercion implements it. Let the payload of the PDU have the dynamic type
  the program asserts for its tag. When the declared field type does not accept the tag,
  and the pair is not an OctetString PDU with a slice field, the coercion logs one entry and
  returns with the record unchanged. An OctetString PDU into a slice whose elements are not
  bytes panics.
\<close>

theorem type_mismatch_logged:
  assumes "payload_fits pdu"
  shows "(\<not> spec_accepts (Type pdu) t \<and> \<not> (Type pdu = OctetString \<and> kind_of t = KSlice) \<longrightarrow>
           (\<exists>entry. deserializePDUToValue pdu dest (RValue t loc canSet) fieldName = Inr (dest, [entry])))
       \<and> (Type pdu = OctetString \<and> kind_of t = KSlice \<and> map_option kind_of (type_Elem t) \<noteq> Some KUint8 \<longrightarrow>
           deserializePDUToValue pdu dest (RValue t loc canSet) fieldName = Inl ExpectedBytes)"
proof (intro conjI impI)
  assume h: "\<not> spec_accepts (Type pdu) t \<and> \<not> (Type pdu = OctetString \<and> kind_of t = KSlice)"
  show "\<exists>entry. deserializePDUToValue pdu dest (RValue t loc canSet) fieldName = Inr (dest, [entry])"
  proof (cases "Type pdu")
    case Integer
    then show ?thesis using not_accepts_Integer assms h by blast
  next
    case OctetString
    then show ?thesis using not_accepts_OctetString assms h by blast
  next
    case ObjectIdentifier
    then show ?thesis using not_accepts_ObjectIdentifier h by blast
  next
    case OtherTag
    then show ?thesis using not_accepts_OtherTag by blast
  qed (use not_accepts_unsigned assms h in auto)
next
  assume h: "Type pdu = OctetString \<and> kind_of t = KSlice \<and> map_option kind_of (type_Elem t) \<noteq> Some KUint8"
  with assms obtain b where "Value pdu = BytesVal b"
    by (auto simp: payload_fits_def split: PduValue.splits)
  then show "deserializePDUToValue pdu dest (RValue t loc canSet) fieldName = Inl ExpectedBytes"
    using h by (auto simp: deserializePDUToValue_def Kind_of_Value_def Type_of_Value_def)
qed

theorem type_mismatch_logged_witness:
  "payload_fits \<lparr>Name = ''.1.2'', Type = Integer, Value = IntVal 5\<rparr>
   \<and> \<not> spec_accepts Integer TString
   \<and> deserializePDUToValue \<lparr>Name = ''.1.2'', Type = Integer, Value = IntVal 5\<rparr>
        (VPtr (Some (VStruct [VString ''x'']))) (RValue TString [Deref, FieldAt 0] True) ''Rec.S''
      = Inr (VPtr (Some (VStruct [VString ''x''])), [LogTypeMismatch ''Rec.S'' KString ''{int, int32, int64}''])
   \<and> payload_fits \<lparr>Name = ''.1.2'', Type = OctetString, Value = BytesVal ''ab''\<rparr>
   \<and> deserializePDUToValue \<lparr>Name = ''.1.2'', Type = OctetString, Value = BytesVal ''ab''\<rparr>
        (VPtr (Some (VStruct [VSlice []]))) (RValue (TSlice TUint16) [Deref, FieldAt 0] True) ''Rec.B''
      = Inl ExpectedBytes"
proof -
  let ?p = "\<lparr>Name = ''.1.2'', Type = Integer, Value = IntVal 5\<rparr>"
  let ?q = "\<lparr>Name = ''.1.2'', Type = OctetString, Value = BytesVal ''ab''\<rparr>"
  have f: "payload_fits ?p" by (simp add: payload_fits_def)
  have g: "payload_fits ?q" by (simp add: payload_fits_def)
  have n: "\<not> spec_accepts Integer TString" by (simp add: spec_accepts_def)
  from type_mismatch_logged [OF f, of TString "VPtr (Some (VStruct [VString ''x'']))" "[Deref, FieldAt 0]" True "''Rec.S''"] n
  obtain entry where e: "deserializePDUToValue ?p
        (VPtr (Some (VStruct [VString ''x'']))) (RValue TString [Deref, FieldAt 0] True) ''Rec.S''
      = Inr (VPtr (Some (VStruct [VString ''x''])), [entry])" by auto
  then have "entry = LogTypeMismatch ''Rec.S'' KString ''{int, int32, int64}''"
    by (simp add: deserializePDUToValue_def Kind_of_Value_def)
  with e have 1: "deserializePDUToValue ?p
        (VPtr (Some (VStruct [VString ''x'']))) (RValue TString [Deref, FieldAt 0] True) ''Rec.S''
      = Inr (VPtr (Some (VStruct [VString ''x''])), [LogTypeMismatch ''Rec.S'' KString ''{int, int32, int64}''])"
    by simp
  from type_mismatch_logged [OF g, of "TSlice TUint16" "VPtr (Some (VStruct [VSlice []]))" "[Deref, FieldAt 0]" True "''Rec.B''"]
  have 2: "deserializePDUToValue ?q
        (VPtr (Some (VStruct [VSlice []]))) (RValue (TSlice TUint16) [Deref, FieldAt 0] True) ''Rec.B''
      = Inl ExpectedBytes" by simp
  from f g n 1 2 show ?thesis by blast
qed

text \<open>An OctetString PDU into a field of type \<open>[]uint16\<close>: the coercion panics.\<close>

theorem type_mismatch_counterexample:
  "deserializePDUToValue \<lparr>Name = ''.1.2'', Type = OctetString, Value = BytesVal ''ab''\<rparr>
        (VPtr (Some (VStruct [VSlice []]))) (RValue (TSlice TUint16) [Deref, FieldAt 0] True) ''Rec.B''
      = Inl ExpectedBytes"
  by (simp add: deserializePDUToValue_def Kind_of_Value_def Type_of_Value_def)

lemma bad_tags:
  "ParseOID ''1.x'' = Inl ErrSyntax" "ParseOID ''abc'' = Inl ErrSyntax" "ParseOID ''.1.2'' = Inr [1, 2]"
  by (simp_all add: ParseOID_def ParseUint_def digit_val_def maxUint64_def)

text \<open>
  Claim C4 on three record types with an unparseable tag. Behind a pointer (the way
  \<open>NewSNMPMagic\<close> is called) and inside a nested record the error is dropped:
  \<open>BuildOIDTree\<close> returns a tree and caches it. Only for a struct type passed directly,
  with the bad tag on one of its own fields, is the error returned and nothing cached.
\<close>

theorem schema_error_not_returned:
  "BuildOIDTree Map.empty (TPtr (TStruct ''Rec'' [(''A'', ''1.x'', TInt)]))
     = (Inr (Inr NewOIDTree), [TPtr (TStruct ''Rec'' [(''A'', ''1.x'', TInt)]) \<mapsto> NewOIDTree])
   \<and> BuildOIDTree Map.empty
        (TStruct ''Rec'' [(''In'', ''.1.2'', TStruct ''Inner'' [(''X'', ''abc'', TInt)])])
     = (Inr (Inr (OIDTree [1, 2] [] 0 ''.In'' SimpleNode)),
        [TStruct ''Rec'' [(''In'', ''.1.2'', TStruct ''Inner'' [(''X'', ''abc'', TInt)])]
           \<mapsto> OIDTree [1, 2] [] 0 ''.In'' SimpleNode])
   \<and> BuildOIDTree Map.empty (TStruct ''Rec'' [(''A'', ''1.x'', TInt)])
     = (Inr (Inl ErrSyntax), Map.empty)"
proof (intro conjI)
  show "BuildOIDTree Map.empty (TPtr (TStruct ''Rec'' [(''A'', ''1.x'', TInt)]))
     = (Inr (Inr NewOIDTree), [TPtr (TStruct ''Rec'' [(''A'', ''1.x'', TInt)]) \<mapsto> NewOIDTree])"
    by (simp add: BuildOIDTree_def bad_tags starts_lower_def)
  have i: "Insert NewOIDTree [1, 2] 0 ''.In'' SimpleNode = Inr (OIDTree [1, 2] [] 0 ''.In'' SimpleNode)"
    by (simp add: Insert_uninit NewOIDTree_def)
  have "prepare NewOIDTree (TStruct ''Rec'' [(''In'', ''.1.2'', TStruct ''Inner'' [(''X'', ''abc'', TInt)])]) [] []
          = Inr (OIDTree [1, 2] [] 0 ''.In'' SimpleNode, None)"
    using i by (simp add: bad_tags starts_lower_def Copy_def Let_def)
  then show "BuildOIDTree Map.empty
        (TStruct ''Rec'' [(''In'', ''.1.2'', TStruct ''Inner'' [(''X'', ''abc'', TInt)])])
     = (Inr (Inr (OIDTree [1, 2] [] 0 ''.In'' SimpleNode)),
        [TStruct ''Rec'' [(''In'', ''.1.2'', TStruct ''Inner'' [(''X'', ''abc'', TInt)])]
           \<mapsto> OIDTree [1, 2] [] 0 ''.In'' SimpleNode])"
    by (simp add: BuildOIDTree_def)
  show "BuildOIDTree Map.empty (TStruct ''Rec'' [(''A'', ''1.x'', TInt)])
     = (Inr (Inl ErrSyntax), Map.empty)"
    by (simp add: BuildOIDTree_def bad_tags starts_lower_def)
qed

lemma scenario_tags:
  "ParseOID ''.1.2'' = Inr [1, 2]" "ParseOID ''2'' = Inr [2]" "ParseOID ''3'' = Inr [3]"
  "ParseOID ''2.1'' = Inr [2, 1]" "ParseOID ''2.2'' = Inr [2, 2]"
  "ParseOID ''.1.2.2.7'' = Inr [1, 2, 2, 7]" "ParseOID ''.1.2.3.7'' = Inr [1, 2, 3, 7]"
  by (simp_all add: ParseOID_def ParseUint_def digit_val_def maxUint64_def)

lemma scenario_inserts:
  "Insert NewOIDTree [1, 2] 0 ''Rec.M'' SuffixCatcherNode = Inr (OIDTree [1, 2] [] 0 ''Rec.M'' SuffixCatcherNode)"
  "Insert (OIDTree [1, 2] [] 0 ''Rec.M'' SuffixCatcherNode) [1, 2, 2] 0 ''Row.A'' LeafNode
     = Inr (OIDTree [1, 2] [(2, OIDTree [] [] 0 ''Row.A'' LeafNode)] 0 ''Rec.M'' SuffixCatcherNode)"
  "Insert (OIDTree [1, 2] [(2, OIDTree [] [] 0 ''Row.A'' LeafNode)] 0 ''Rec.M'' SuffixCatcherNode)
      [1, 2, 3] 1 ''Row.B'' LeafNode = Inr scenario_tree"
proof -
  show "Insert NewOIDTree [1, 2] 0 ''Rec.M'' SuffixCatcherNode = Inr (OIDTree [1, 2] [] 0 ''Rec.M'' SuffixCatcherNode)"
    by (simp add: Insert_uninit NewOIDTree_def)
  show "Insert (OIDTree [1, 2] [] 0 ''Rec.M'' SuffixCatcherNode) [1, 2, 2] 0 ''Row.A'' LeafNode
     = Inr (OIDTree [1, 2] [(2, OIDTree [] [] 0 ''Row.A'' LeafNode)] 0 ''Rec.M'' SuffixCatcherNode)"
    using Insert_extend [of "OIDTree [1, 2] [] 0 ''Rec.M'' SuffixCatcherNode" "[1, 2, 2]" 2 "[]" 0 "''Row.A''" LeafNode]
    by (simp add: createOrUpdateChild_Cons IsLeaf_def set_children_def)
  show "Insert (OIDTree [1, 2] [(2, OIDTree [] [] 0 ''Row.A'' LeafNode)] 0 ''Rec.M'' SuffixCatcherNode)
      [1, 2, 3] 1 ''Row.B'' LeafNode = Inr scenario_tree"
    using Insert_extend [of "OIDTree [1, 2] [(2, OIDTree [] [] 0 ''Row.A'' LeafNode)] 0 ''Rec.M'' SuffixCatcherNode"
        "[1, 2, 3]" 3 "[]" 1 "''Row.B''" LeafNode]
    by (simp add: createOrUpdateChild_Cons IsLeaf_def set_children_def scenario_tree_def)
qed

lemma scenario_prepare: "prepare NewOIDTree (TPtr RecType) [] [] = Inr (scenario_tree, None)"
  using scenario_inserts
  by (simp add: RecType_def RowType_def scenario_tags starts_lower_def Copy_def Let_def)

lemma scenario_walker:
  "NewSNMPMagic Map.empty (TPtr RecType) dst
     = (Inr (Inr \<lparr>oidTree = scenario_tree, destinationType = TPtr RecType, destination = dst, isFilled = 0\<rparr>),
        [TPtr RecType \<mapsto> scenario_tree])"
  by (simp add: NewSNMPMagic_def BuildOIDTree_def scenario_prepare del: prepare.simps)

lemma scenario_first_pdu:
  "HandlePDU (Suc (Suc n))
     \<lparr>oidTree = scenario_tree, destinationType = TPtr RecType,
      destination = VPtr (Some (VStruct [VMap None])), isFilled = f\<rparr> []
     \<lparr>Name = ''.1.2.2.7'', Type = Integer, Value = IntVal 42\<rparr>
   = (Returned None,
      \<lparr>oidTree = scenario_tree, destinationType = TPtr RecType,
       destination = VPtr (Some (VStruct [VMap (Some [(KeyUint 7, VPtr (Some (VStruct [VInt 42, VInt 0])))])])),
       isFilled = f\<rparr>, [])"
  by (simp add: HandlePDU_def scenario_tags scenario_tree_def RecType_def RowType_def
        deref_pointers_def Field_def exported_def IsSuffixCatching_def IsLeaf_def
        getOrCreateMapElement_def Let_def FindNext_def IsValid_def
        deserializePDUToValue_def Kind_of_Value_def SetInt_def SetValue_def done_quietly_def)

lemma scenario_second_pdu:
  "HandlePDU (Suc (Suc n))
     \<lparr>oidTree = scenario_tree, destinationType = TPtr RecType,
      destination = VPtr (Some (VStruct [VMap (Some [(KeyUint 7, VPtr (Some (VStruct [VInt 42, VInt 0])))])])),
      isFilled = f\<rparr> []
     \<lparr>Name = ''.1.2.3.7'', Type = Integer, Value = IntVal 99\<rparr>
   = (Returned None,
      \<lparr>oidTree = scenario_tree, destinationType = TPtr RecType,
       destination = VPtr (Some (VStruct [VMap (Some [(KeyUint 7, VPtr (Some (VStruct [VInt 42, VInt 99])))])])),
       isFilled = f\<rparr>, [])"
  by (simp add: HandlePDU_def scenario_tags scenario_tree_def RecType_def RowType_def
        deref_pointers_def Field_def exported_def IsSuffixCatching_def IsLeaf_def
        getOrCreateMapElement_def Let_def FindNext_def IsValid_def
        deserializePDUToValue_def Kind_of_Value_def SetInt_def SetValue_def done_quietly_def)

text \<open>
  Claim C3. The record has one map \<open>M\<close> from \<open>uint\<close> to rows at \<open>.1.2\<close>, the row
  with the leaf \<open>A\<close> at \<open>2\<close> and the leaf \<open>B\<close> at \<open>3\<close>. Dispatching the PDU
  \<open>(.1.2.2.7, Integer 42)\<close> and then \<open>(.1.2.3.7, Integer 99)\<close> into a fresh record
  returns both times without error or log entry (with any fuel of at least two passes) and
  leaves a map with exactly one row, at key 7, the last arc, with \<open>A = 42\<close> and \<open>B = 99\<close>.
\<close>

theorem map_row_population:
  "\<exists>m cache m1 m2.
     NewSNMPMagic Map.empty (TPtr RecType) (VPtr (Some (zero_value RecType))) = (Inr (Inr m), cache)
     \<and> HandlePDU (Suc (Suc n)) m [] \<lparr>Name = ''.1.2.2.7'', Type = Integer, Value = IntVal 42\<rparr>
         = (Returned None, m1, [])
     \<and> HandlePDU (Suc (Suc n)) m1 [] \<lparr>Name = ''.1.2.3.7'', Type = Integer, Value = IntVal 99\<rparr>
         = (Returned None, m2, [])
     \<and> destination m2
         = VPtr (Some (VStruct [VMap (Some [(KeyUint 7, VPtr (Some (VStruct [VInt 42, VInt 99])))])]))"
proof -
  have z: "zero_value RecType = VStruct [VMap None]" by (simp add: RecType_def)
  show ?thesis
    unfolding z scenario_walker
    using scenario_first_pdu [of n] scenario_second_pdu [of n] by auto
qed

lemma scenario2_inserts:
  "Insert (OIDTree [1, 2] [] 0 ''Rec.M'' SuffixCatcherNode) [1, 2, 2, 1] 0 ''Row.A'' LeafNode
     = Inr (OIDTree [1, 2] [(2, OIDTree [1] [] 0 ''Row.A'' LeafNode)] 0 ''Rec.M'' SuffixCatcherNode)"
  "Insert (OIDTree [1, 2] [(2, OIDTree [1] [] 0 ''Row.A'' LeafNode)] 0 ''Rec.M'' SuffixCatcherNode)
      [1, 2, 2, 2] 1 ''Row.B'' LeafNode = Inr scenario2_tree"
proof -
  show "Insert (OIDTree [1, 2] [] 0 ''Rec.M'' SuffixCatcherNode) [1, 2, 2, 1] 0 ''Row.A'' LeafNode
     = Inr (OIDTree [1, 2] [(2, OIDTree [1] [] 0 ''Row.A'' LeafNode)] 0 ''Rec.M'' SuffixCatcherNode)"
    using Insert_extend [of "OIDTree [1, 2] [] 0 ''Rec.M'' SuffixCatcherNode" "[1, 2, 2, 1]" 2 "[1]" 0 "''Row.A''" LeafNode]
    by (simp add: createOrUpdateChild_Cons IsLeaf_def set_children_def)
  have split: "Insert (OIDTree [1] [] 0 ''Row.A'' LeafNode) [2] 1 ''Row.B'' LeafNode = Inr interior_node"
    using Insert_split [of "OIDTree [1] [] 0 ''Row.A'' LeafNode" "[]" 1 "[]" "[2]" 2 "[]" 1 "''Row.B''" LeafNode]
    by (simp add: interior_node_def)
  show "Insert (OIDTree [1, 2] [(2, OIDTree [1] [] 0 ''Row.A'' LeafNode)] 0 ''Rec.M'' SuffixCatcherNode)
      [1, 2, 2, 2] 1 ''Row.B'' LeafNode = Inr scenario2_tree"
    using Insert_extend [of "OIDTree [1, 2] [(2, OIDTree [1] [] 0 ''Row.A'' LeafNode)] 0 ''Rec.M'' SuffixCatcherNode"
        "[1, 2, 2, 2]" 2 "[2]" 1 "''Row.B''" LeafNode] split
    by (simp add: createOrUpdateChild_Cons set_children_def scenario2_tree_def)
qed

lemma scenario2_prepare: "prepare NewOIDTree (TPtr Rec2Type) [] [] = Inr (scenario2_tree, None)"
  using scenario_inserts(1) scenario2_inserts
  by (simp add: Rec2Type_def Row2Type_def scenario_tags starts_lower_def Copy_def Let_def)

lemma scenario2_walker:
  "NewSNMPMagic Map.empty (TPtr Rec2Type) dst
     = (Inr (Inr \<lparr>oidTree = scenario2_tree, destinationType = TPtr Rec2Type, destination = dst, isFilled = 0\<rparr>),
        [TPtr Rec2Type \<mapsto> scenario2_tree])"
  by (simp add: NewSNMPMagic_def BuildOIDTree_def scenario2_prepare del: prepare.simps)

lemma FindNext_interior: "FindNext interior_node [] = (Some interior_node, [])"
  by (simp add: FindNext_def interior_node_def)

text \<open>At the node made by the split, with nothing left of the path, every pass of the loop
  ends where it began.\<close>

lemma loop_at_interior:
  "HandlePDU_loop fuel pdu path dest lg (RValue Row2Type loc canSet) (Some interior_node) []
     = (OutOfFuel, dest, lg)"
proof (induction fuel)
  case 0
  then show ?case by simp
next
  case (Suc fuel)
  have d: "deref_pointers dest (RValue Row2Type loc canSet) = RValue Row2Type loc canSet"
    by (simp add: deref_pointers_def Row2Type_def)
  have n: "\<not> fieldIndex interior_node \<ge> 0" "\<not> IsSuffixCatching interior_node" "\<not> IsLeaf interior_node"
    by (simp_all add: interior_node_def IsSuffixCatching_def IsLeaf_def)
  show ?case
    by (simp only: HandlePDU_loop.simps d n Let_def if_False simp_thms sum.case prod.case
          FindNext_interior Suc.IH)
qed

lemma scenario2_dispatch:
  "fst (HandlePDU fuel
     \<lparr>oidTree = scenario2_tree, destinationType = TPtr Rec2Type,
      destination = VPtr (Some (VStruct [VMap None])), isFilled = 0\<rparr> []
     \<lparr>Name = ''.1.2.2.7'', Type = Integer, Value = IntVal 42\<rparr>) = OutOfFuel"
proof (cases fuel)
  case 0
  then show ?thesis by (simp add: HandlePDU_def scenario_tags)
next
  case (Suc k)
  have f: "FindNext scenario2_tree [1, 2, 2] = (Some interior_node, [])"
    by (simp add: FindNext_def scenario2_tree_def)
  have g: "getOrCreateMapElement (VPtr (Some (VStruct [VMap None])))
             (RValue (TMap TUint (TPtr Row2Type)) [Deref, FieldAt 0] True) ''Rec.M'' [1, 2, 2, 7]
           = Inr (VPtr (Some (VStruct [VMap (Some [(KeyUint 7, VPtr (Some (zero_value Row2Type)))])])),
                  Inr (RValue Row2Type [Deref, FieldAt 0, MapElem (KeyUint 7), Deref] True, [1, 2, 2]))"
    by (simp add: getOrCreateMapElement_def Let_def)
  have v: "Field (deref_pointers (VPtr (Some (VStruct [VMap None]))) (RValue (TPtr Rec2Type) [] False)) 0
           = Inr (RValue (TMap TUint (TPtr Row2Type)) [Deref, FieldAt 0] True)"
    by (simp add: deref_pointers_def Rec2Type_def Field_def exported_def)
  have s: "fieldIndex scenario2_tree = 0" "IsSuffixCatching scenario2_tree" "\<not> IsLeaf scenario2_tree"
    "fieldQualifiedName scenario2_tree = ''Rec.M''"
    by (simp_all add: scenario2_tree_def IsSuffixCatching_def IsLeaf_def)
  have "HandlePDU_loop (Suc k) \<lparr>Name = ''.1.2.2.7'', Type = Integer, Value = IntVal 42\<rparr> [1, 2, 2, 7]
          (VPtr (Some (VStruct [VMap None]))) [] (RValue (TPtr Rec2Type) [] False)
          (Some scenario2_tree) [1, 2, 2, 7]
        = (OutOfFuel, VPtr (Some (VStruct [VMap (Some [(KeyUint 7, VPtr (Some (zero_value Row2Type)))])])), [])"
    using g f by (simp add: Let_def v s loop_at_interior IsValid_def del: zero_value.simps)
  then show ?thesis using Suc by (simp add: HandlePDU_def scenario_tags del: HandlePDU_loop.simps)
qed

text \<open>
  Claim C10 on the record whose row has its two columns at \<open>2.1\<close> and \<open>2.2\<close>. The second
  insertion splits the first column's node, which leaves at \<open>.1.2.2\<close> a simple node with
  an empty prefix and no locator; \<open>FindNext\<close> returns that node for the empty path. The
  dispatch of the PDU \<open>.1.2.2.7\<close> reaches it with nothing left of the path and is out of
  fuel whatever the fuel: the loop never ends.
\<close>

theorem dispatch_never_returns:
  "\<exists>m cache. NewSNMPMagic Map.empty (TPtr Rec2Type) (VPtr (Some (zero_value Rec2Type))) = (Inr (Inr m), cache)
     \<and> fst (HandlePDU fuel m [] \<lparr>Name = ''.1.2.2.7'', Type = Integer, Value = IntVal 42\<rparr>) = OutOfFuel
     \<and> lookup (oidTree m) [1, 2, 2] = Some interior_node
     \<and> FindNext interior_node [] = (Some interior_node, [])"
proof -
  have z: "zero_value Rec2Type = VStruct [VMap None]" by (simp add: Rec2Type_def)
  have l: "lookup scenario2_tree [1, 2, 2] = Some interior_node"
    using lookup_child [of scenario2_tree 2 "[]"] lookup_self [of interior_node]
    by (simp add: scenario2_tree_def interior_node_def)
  show ?thesis
    unfolding z scenario2_walker
    using scenario2_dispatch [of fuel] l FindNext_interior by auto
qed

lemma HandlePDU_keeps:
  "HandlePDU fuel self lg pdu = (r, self', lg') \<Longrightarrow>
   isFilled self' = isFilled self \<and> oidTree self' = oidTree self"
  by (auto simp: HandlePDU_def split: sum.splits prod.splits)

lemma deliver_keeps:
  "deliver fuel self lg pdus = (r, self', lg') \<Longrightarrow> isFilled self' = isFilled self"
proof (induction pdus arbitrary: self lg)
  case Nil
  then show ?case by simp
next
  case (Cons pdu pdus)
  obtain r1 s1 l1 where h: "HandlePDU fuel self lg pdu = (r1, s1, l1)"
    by (cases "HandlePDU fuel self lg pdu") auto
  then have k: "isFilled s1 = isFilled self" using HandlePDU_keeps by blast
  show ?case
  proof (cases "r1 = Returned None")
    case True
    with Cons.prems h have "deliver fuel s1 l1 pdus = (r, self', lg')" by simp
    from Cons.IH [OF this] k show ?thesis by simp
  next
    case False
    with Cons.prems h have "self' = s1"
      by (cases r1) (auto split: option.splits)
    with k show ?thesis by simp
  qed
qed

lemma BulkWalk_keeps:
  assumes "BulkWalk fuel self lg client rootOid = (r, self', lg', client')"
  shows "isFilled self' = isFilled self \<and> events client' = events client @ [EvBulkWalk rootOid]
         \<and> connectError client' = connectError client"
proof -
  obtain pdus err where p: "responses client rootOid = (pdus, err)"
    by (cases "responses client rootOid") auto
  obtain r1 s1 l1 where d: "deliver fuel self lg pdus = (r1, s1, l1)"
    by (cases "deliver fuel self lg pdus") auto
  from assms p d have "self' = s1 \<and> client' = client\<lparr>events := events client @ [EvBulkWalk rootOid]\<rparr>"
    by (cases r1) (auto simp: BulkWalk_def Let_def split: option.splits)
  with deliver_keeps [OF d] show ?thesis by simp
qed

lemma walk_roots_keeps:
  "walk_roots fuel self lg client roots = (r, self', lg', client') \<Longrightarrow>
   isFilled self' = isFilled self
   \<and> (\<exists>more. events client' = events client @ more \<and> EvConnect \<notin> set more)"
proof (induction roots arbitrary: self lg client)
  case Nil
  then show ?case by simp
next
  case (Cons root roots)
  obtain r1 s1 l1 c1 where b: "BulkWalk fuel self lg client (String_OID root) = (r1, s1, l1, c1)"
    by (cases "BulkWalk fuel self lg client (String_OID root)") auto
  from BulkWalk_keeps [OF b] have k: "isFilled s1 = isFilled self"
    "events c1 = events client @ [EvBulkWalk (String_OID root)]" by simp_all
  show ?case
  proof (cases "r1 = Returned None")
    case True
    with Cons.prems b have "walk_roots fuel s1 l1 c1 roots = (r, self', lg', client')" by simp
    from Cons.IH [OF this] obtain more where "isFilled self' = isFilled s1"
      "events client' = events c1 @ more" "EvConnect \<notin> set more" by blast
    with k show ?thesis by simp
  next
    case False
    with Cons.prems b have "self' = s1 \<and> client' = c1"
      by (cases r1) (auto split: option.splits)
    with k show ?thesis by simp
  qed
qed

text \<open>
  Claim C6, for calls one after the other. A \<open>Query\<close> on a walker that has not been used
  opens the transport, once. A \<open>Query\<close> on a walker that has been used returns the
  already-filled error and leaves the walker, the record, the log and the transport as they
  were. A second call is always of the second kind, so two calls open the transport at
  most once.
\<close>

theorem query_at_most_once:
  assumes q1: "Query fuel self lg client = (r1, self1, lg1, client1)"
    and q2: "Query fuel' self1 lg1 client1 = (r2, self2, lg2, client2)"
  shows "(isFilled self = 0 \<longrightarrow>
            (\<exists>more. events client1 = events client @ EvConnect # more \<and> EvConnect \<notin> set more))
       \<and> (isFilled self \<noteq> 0 \<longrightarrow>
            r1 = Returned (Some ErrAlreadyFilled) \<and> self1 = self \<and> lg1 = lg \<and> client1 = client)
       \<and> r2 = Returned (Some ErrAlreadyFilled) \<and> self2 = self1 \<and> lg2 = lg1 \<and> client2 = client1
       \<and> length (filter (\<lambda>e. e = EvConnect) (events client2))
           \<le> Suc (length (filter (\<lambda>e. e = EvConnect) (events client)))"
proof -
  have first: "isFilled self1 \<noteq> 0
      \<and> (isFilled self = 0 \<longrightarrow>
            (\<exists>more. events client1 = events client @ EvConnect # more \<and> EvConnect \<notin> set more))"
  proof (cases "isFilled self = 0")
    case False
    with q1 show ?thesis by (simp add: Query_def)
  next
    case z: True
    define s where "s = self\<lparr>isFilled := 1\<rparr>"
    define c where "c = client\<lparr>events := events client @ [EvConnect]\<rparr>"
    show ?thesis
    proof (cases "connectError client")
      case (Some err)
      with q1 z show ?thesis by (auto simp: Query_def Let_def)
    next
      case None
      obtain r s' l' c' where w: "walk_roots fuel s lg c (PrefixPaths (oidTree s)) = (r, s', l', c')"
        by (cases "walk_roots fuel s lg c (PrefixPaths (oidTree s))") auto
      from walk_roots_keeps [OF w] obtain more where k: "isFilled s' = 1"
        "events c' = events client @ EvConnect # more" "EvConnect \<notin> set more"
        by (auto simp: s_def c_def)
      from q1 z None w have "self1 = s'
          \<and> (client1 = c' \<or> client1 = c'\<lparr>events := events c' @ [EvClose]\<rparr>)"
        unfolding Query_def Let_def s_def [symmetric] c_def [symmetric]
        by (cases r) auto
      with k z show ?thesis by auto
    qed
  qed
  then have second: "r2 = Returned (Some ErrAlreadyFilled) \<and> self2 = self1 \<and> lg2 = lg1 \<and> client2 = client1"
    using q2 by (simp add: Query_def)
  have "isFilled self \<noteq> 0 \<longrightarrow>
            r1 = Returned (Some ErrAlreadyFilled) \<and> self1 = self \<and> lg1 = lg \<and> client1 = client"
    using q1 by (auto simp: Query_def)
  moreover have "length (filter (\<lambda>e. e = EvConnect) (events client2))
           \<le> Suc (length (filter (\<lambda>e. e = EvConnect) (events client)))"
  proof (cases "isFilled self = 0")
    case True
    with first obtain more where "events client1 = events client @ EvConnect # more"
      "EvConnect \<notin> set more" by blast
    moreover from this(2) have "filter (\<lambda>e. e = EvConnect) more = []"
      by (induction more) auto
    ultimately show ?thesis using second by simp
  next
    case False
    with q1 have "client1 = client" by (simp add: Query_def)
    with second show ?thesis by simp
  qed
  ultimately show ?thesis using first second by blast
qed

theorem query_at_most_once_witness:
  "Query 5
     \<lparr>oidTree = scenario_tree, destinationType = TPtr RecType,
      destination = VPtr (Some (VStruct [VMap None])), isFilled = 0\<rparr> []
     \<lparr>connectError = None,
      responses = (\<lambda>root. if root = ''1.2''
         then ([\<lparr>Name = ''.1.2.2.7'', Type = Integer, Value = IntVal 42\<rparr>,
                \<lparr>Name = ''.1.2.3.7'', Type = Integer, Value = IntVal 99\<rparr>], None)
         else ([], None)),
      events = []\<rparr>
   = (Returned None,
      \<lparr>oidTree = scenario_tree, destinationType = TPtr RecType,
       destination = VPtr (Some (VStruct [VMap (Some [(KeyUint 7, VPtr (Some (VStruct [VInt 42, VInt 99])))])])),
       isFilled = 1\<rparr>, [],
      \<lparr>connectError = None,
       responses = (\<lambda>root. if root = ''1.2''
         then ([\<lparr>Name = ''.1.2.2.7'', Type = Integer, Value = IntVal 42\<rparr>,
                \<lparr>Name = ''.1.2.3.7'', Type = Integer, Value = IntVal 99\<rparr>], None)
         else ([], None)),
       events = [EvConnect, EvBulkWalk ''1.2'', EvClose]\<rparr>)
   \<and> Query 5
     \<lparr>oidTree = scenario_tree, destinationType = TPtr RecType,
       destination = VPtr (Some (VStruct [VMap (Some [(KeyUint 7, VPtr (Some (VStruct [VInt 42, VInt 99])))])])),
       isFilled = 1\<rparr> []
     \<lparr>connectError = None,
       responses = (\<lambda>root. if root = ''1.2''
         then ([\<lparr>Name = ''.1.2.2.7'', Type = Integer, Value = IntVal 42\<rparr>,
                \<lparr>Name = ''.1.2.3.7'', Type = Integer, Value = IntVal 99\<rparr>], None)
         else ([], None)),
       events = [EvConnect, EvBulkWalk ''1.2'', EvClose]\<rparr>
   = (Returned (Some ErrAlreadyFilled),
      \<lparr>oidTree = scenario_tree, destinationType = TPtr RecType,
       destination = VPtr (Some (VStruct [VMap (Some [(KeyUint 7, VPtr (Some (VStruct [VInt 42, VInt 99])))])])),
       isFilled = 1\<rparr>, [],
      \<lparr>connectError = None,
       responses = (\<lambda>root. if root = ''1.2''
         then ([\<lparr>Name = ''.1.2.2.7'', Type = Integer, Value = IntVal 42\<rparr>,
                \<lparr>Name = ''.1.2.3.7'', Type = Integer, Value = IntVal 99\<rparr>], None)
         else ([], None)),
       events = [EvConnect, EvBulkWalk ''1.2'', EvClose]\<rparr>)"
proof -
  let ?p1 = "\<lparr>Name = ''.1.2.2.7'', Type = Integer, Value = IntVal 42\<rparr>"
  let ?p2 = "\<lparr>Name = ''.1.2.3.7'', Type = Integer, Value = IntVal 99\<rparr>"
  let ?resp = "\<lambda>root. if root = ''1.2'' then ([?p1, ?p2], None) else ([], None)"
  let ?s0 = "\<lparr>oidTree = scenario_tree, destinationType = TPtr RecType,
      destination = VPtr (Some (VStruct [VMap None])), isFilled = 0\<rparr>"
  let ?s1 = "\<lparr>oidTree = scenario_tree, destinationType = TPtr RecType,
       destination = VPtr (Some (VStruct [VMap (Some [(KeyUint 7, VPtr (Some (VStruct [VInt 42, VInt 99])))])])),
       isFilled = 1\<rparr>"
  let ?c0 = "\<lparr>connectError = None, responses = ?resp, events = []\<rparr>"
  let ?c1 = "\<lparr>connectError = None, responses = ?resp, events = [EvConnect, EvBulkWalk ''1.2'', EvClose]\<rparr>"
  have pp: "PrefixPaths scenario_tree = [[1, 2]]" by (simp add: scenario_tree_def Copy_def)
  have st: "String_OID [1, 2] = ''1.2''" by (simp add: FormatUint.simps digit_char_def)
  have d: "deliver 5 (?s0\<lparr>isFilled := 1\<rparr>) [] [?p1, ?p2] = (Returned None, ?s1, [])"
    using scenario_first_pdu [of 3 1] scenario_second_pdu [of 3 1]
    by (simp add: eval_nat_numeral del: HandlePDU_loop.simps)
  have b: "BulkWalk 5 (?s0\<lparr>isFilled := 1\<rparr>) [] (?c0\<lparr>events := [EvConnect]\<rparr>) ''1.2''
             = (Returned None, ?s1, [], ?c0\<lparr>events := [EvConnect, EvBulkWalk ''1.2'']\<rparr>)"
    using d by (simp add: BulkWalk_def del: deliver.simps)
  have w: "walk_roots 5 (?s0\<lparr>isFilled := 1\<rparr>) [] (?c0\<lparr>events := [EvConnect]\<rparr>) [[1, 2]]
             = (Returned None, ?s1, [], ?c0\<lparr>events := [EvConnect, EvBulkWalk ''1.2'']\<rparr>)"
    by (simp only: walk_roots.simps st b prod.case Outcome.case option.case)
  have q1: "Query 5 ?s0 [] ?c0 = (Returned None, ?s1, [], ?c1)"
    using w by (simp add: Query_def Let_def pp del: walk_roots.simps)
  obtain r2 s2 l2 c2 where q2: "Query 5 ?s1 [] ?c1 = (r2, s2, l2, c2)"
    by (cases "Query 5 ?s1 [] ?c1") auto
  from query_at_most_once [OF q1 q2] q2
  have "Query 5 ?s1 [] ?c1 = (Returned (Some ErrAlreadyFilled), ?s1, [], ?c1)" by simp
  with q1 show ?thesis by simp
qed

end
